theory Spec2Isabelle
  imports Complex_Main "HOL-Library.Char_ord"
begin

section \<open>Python strings\<close>

text \<open>
  A Python \<open>str\<close> is modelled as a \<open>string\<close> (a list of characters). The embedding
  covers ASCII text: the case conversions below act on the letters A-Z and a-z, the
  word characters are letters, digits and the underscore, and the white space
  characters are those for which Python's \<open>str.isspace\<close> holds below code 128. Python
  agrees with these definitions on every ASCII string; characters of code 128 and
  above are treated as uncased symbols that are neither word nor space characters.
\<close>

definition ascii_uppercase :: string where
  "ascii_uppercase = ''ABCDEFGHIJKLMNOPQRSTUVWXYZ''"

definition ascii_lowercase :: string where
  "ascii_lowercase = ''abcdefghijklmnopqrstuvwxyz''"

definition digits :: string where
  "digits = ''0123456789''"

definition is_upper :: "char \<Rightarrow> bool" where
  "is_upper c = (c \<in> set ascii_uppercase)"

definition is_lower :: "char \<Rightarrow> bool" where
  "is_lower c = (c \<in> set ascii_lowercase)"

definition is_digit :: "char \<Rightarrow> bool" where
  "is_digit c = (c \<in> set digits)"

text \<open>\<open>\w\<close> of the \<open>re\<close> module: a letter, a digit or the underscore.\<close>

definition is_word :: "char \<Rightarrow> bool" where
  "is_word c = (is_upper c \<or> is_lower c \<or> is_digit c \<or> c = CHR ''_'')"

text \<open>\<open>str.isspace\<close> and \<open>\s\<close>: codes 9 to 13, 28 to 31, and the blank.\<close>

definition is_space :: "char \<Rightarrow> bool" where
  "is_space c = (c \<in> set [CHR 0x09, CHR 0x0A, CHR 0x0B, CHR 0x0C, CHR 0x0D,
                             CHR 0x1C, CHR 0x1D, CHR 0x1E, CHR 0x1F, CHR '' ''])"

definition lower_char :: "char \<Rightarrow> char" where
  "lower_char c = (case map_of (zip ascii_uppercase ascii_lowercase) c of
                     Some d \<Rightarrow> d | None \<Rightarrow> c)"

definition upper_char :: "char \<Rightarrow> char" where
  "upper_char c = (case map_of (zip ascii_lowercase ascii_uppercase) c of
                     Some d \<Rightarrow> d | None \<Rightarrow> c)"

text \<open>\<open>s.lower()\<close>\<close>

definition lower :: "string \<Rightarrow> string" where
  "lower s = map lower_char s"

text \<open>\<open>s.startswith(w)\<close>\<close>

fun starts_with :: "string \<Rightarrow> string \<Rightarrow> bool" where
  "starts_with s [] = True"
| "starts_with [] (c # w) = False"
| "starts_with (x # s) (c # w) = (x = c \<and> starts_with s w)"

text \<open>\<open>w in s\<close>: the string \<open>w\<close> occurs in \<open>s\<close> at some position.\<close>

fun contains :: "string \<Rightarrow> string \<Rightarrow> bool" where
  "contains w [] = (w = [])"
| "contains w (x # s) = (starts_with (x # s) w \<or> contains w s)"

text \<open>\<open>sum(1 for x in xs if P(x))\<close>: the generator yields a 1 for every member that
  passes the test, and \<open>sum\<close> adds them up from 0.\<close>

definition sum_ones :: "('a \<Rightarrow> bool) \<Rightarrow> 'a list \<Rightarrow> nat" where
  "sum_ones P xs = sum_list (map (\<lambda>x. 1) (filter P xs))"

text \<open>\<open>sep.join(xs)\<close>\<close>

fun join :: "string \<Rightarrow> string list \<Rightarrow> string" where
  "join sep [] = []"
| "join sep [x] = x"
| "join sep (x # y # ys) = x @ sep @ join sep (y # ys)"

text \<open>\<open>s.strip()\<close>: white space is dropped at both ends.\<close>

definition strip :: "string \<Rightarrow> string" where
  "strip s = rev (dropWhile is_space (rev (dropWhile is_space s)))"

text \<open>\<open>s.split(sep)\<close> for a non-empty separator: the pieces between the leftmost
  non-overlapping occurrences of \<open>sep\<close>; the result always has at least one piece.
  (Python raises ValueError on an empty separator; the program only splits at
  \<open>'@'\<close>, \<open>','\<close> and \<open>', '\<close>.) The second argument is the piece read so far, reversed.\<close>

fun split_from :: "string \<Rightarrow> string \<Rightarrow> string \<Rightarrow> string list" where
  "split_from sep cur [] = [rev cur]"
| "split_from sep cur (c # cs) =
     (if starts_with (c # cs) sep
      then rev cur # split_from sep [] (drop (length sep - 1) cs)
      else split_from sep (c # cur) cs)"

definition split :: "string \<Rightarrow> string \<Rightarrow> string list" where
  "split s sep = split_from sep [] s"

section \<open>Regular expressions of the re module\<close>

text \<open>
  The patterns of the program use literals, character classes, greedy repetition of
  a single character or class, alternation, capture groups and the word boundary
  \<open>\b\<close>. They are written here as syntax trees; each pattern's source text stands
  beside its tree.
\<close>

datatype citem = Ch char | Range char char | Digit | Space | Word

datatype atom = Lit char | Set "citem list" | NSet "citem list"

datatype regex =
    One atom
  | Str string
  | Rep atom nat "nat option"
  | Cat regex regex
  | Alt regex regex
  | Grp nat regex
  | WordB

fun citem_ok :: "citem \<Rightarrow> char \<Rightarrow> bool" where
  "citem_ok (Ch d) c = (c = d)"
| "citem_ok (Range a b) c = (a \<le> c \<and> c \<le> b)"
| "citem_ok Digit c = is_digit c"
| "citem_ok Space c = is_space c"
| "citem_ok Word c = is_word c"

text \<open>Under \<open>re.IGNORECASE\<close> (the flag \<open>ic\<close>) a character matches when it or its other
  case does.\<close>

definition in_set :: "bool \<Rightarrow> citem list \<Rightarrow> char \<Rightarrow> bool" where
  "in_set ic items c =
     (\<exists>i \<in> set items. citem_ok i c \<or> (ic \<and> (citem_ok i (lower_char c) \<or> citem_ok i (upper_char c))))"

fun atom_ok :: "bool \<Rightarrow> atom \<Rightarrow> char \<Rightarrow> bool" where
  "atom_ok ic (Lit d) c = (if ic then lower_char c = lower_char d else c = d)"
| "atom_ok ic (Set items) c = in_set ic items c"
| "atom_ok ic (NSet items) c = (\<not> in_set ic items c)"

text \<open>
  A matcher state is the text already passed (reversed, so that its head is the
  character before the current position), the text still ahead, and the groups
  captured so far. \<open>ms ic r st\<close> lists every way the pattern \<open>r\<close> can match at the
  position of \<open>st\<close>, in the order in which the backtracking matcher of \<open>re\<close> tries
  them: the alternatives of \<open>|\<close> from left to right, a greedy repetition from the
  longest run down to the shortest. The first member of the list is the match
  that \<open>re\<close> reports.
\<close>

type_synonym mstate = "string \<times> string \<times> (nat \<times> string) list"

text \<open>\<open>\b\<close>: exactly one of the characters before and after the position is a word
  character (the start and the end of the text count as non-word).\<close>

definition at_boundary :: "string \<Rightarrow> string \<Rightarrow> bool" where
  "at_boundary pre suf =
     ((case pre of [] \<Rightarrow> False | p # _ \<Rightarrow> is_word p) \<noteq> (case suf of [] \<Rightarrow> False | c # _ \<Rightarrow> is_word c))"

fun str_ok :: "bool \<Rightarrow> string \<Rightarrow> string \<Rightarrow> bool" where
  "str_ok ic [] suf = True"
| "str_ok ic (d # w) [] = False"
| "str_ok ic (d # w) (c # suf) = (atom_ok ic (Lit d) c \<and> str_ok ic w suf)"

fun ms :: "bool \<Rightarrow> regex \<Rightarrow> mstate \<Rightarrow> mstate list" where
  "ms ic (One a) (pre, suf, caps) =
     (case suf of [] \<Rightarrow> []
      | c # cs \<Rightarrow> if atom_ok ic a c then [(c # pre, cs, caps)] else [])"
| "ms ic (Str w) (pre, suf, caps) =
     (if str_ok ic w suf then [(rev (take (length w) suf) @ pre, drop (length w) suf, caps)]
      else [])"
| "ms ic (Rep a lo hi) (pre, suf, caps) =
     (let run = length (takeWhile (atom_ok ic a) suf);
          most = (case hi of None \<Rightarrow> run | Some h \<Rightarrow> min h run)
      in map (\<lambda>j. (rev (take j suf) @ pre, drop j suf, caps)) (rev [lo ..< Suc most]))"
| "ms ic (Cat r1 r2) st = concat (map (ms ic r2) (ms ic r1 st))"
| "ms ic (Alt r1 r2) st = ms ic r1 st @ ms ic r2 st"
| "ms ic (Grp n r) (pre, suf, caps) =
     map (\<lambda>(pre', suf', caps'). (pre', suf', (n, rev (take (length pre' - length pre) pre')) # caps'))
         (ms ic r (pre, suf, caps))"
| "ms ic WordB (pre, suf, caps) = (if at_boundary pre suf then [(pre, suf, caps)] else [])"

text \<open>\<open>re.search\<close>: the first match at the leftmost position that has one; the end
  of the text is a position too.\<close>

fun search_from :: "bool \<Rightarrow> regex \<Rightarrow> string \<Rightarrow> string \<Rightarrow> mstate option" where
  "search_from ic r pre [] = (case ms ic r (pre, [], []) of [] \<Rightarrow> None | m # _ \<Rightarrow> Some m)"
| "search_from ic r pre (c # cs) =
     (case ms ic r (pre, c # cs, []) of
        [] \<Rightarrow> search_from ic r (c # pre) cs
      | m # _ \<Rightarrow> Some m)"

definition re_search :: "bool \<Rightarrow> regex \<Rightarrow> string \<Rightarrow> bool" where
  "re_search ic r text = (search_from ic r [] text \<noteq> None)"

text \<open>\<open>re.findall\<close>: the matches from left to right, each search starting where the
  previous match ended. A match is reported by its groups. (After an empty match
  the scan moves on by one character; none of the program's patterns can match the
  empty string.)\<close>

fun findall_from :: "bool \<Rightarrow> regex \<Rightarrow> string \<Rightarrow> string \<Rightarrow> (nat \<times> string) list list" where
  "findall_from ic r pre suf =
     (case search_from ic r pre suf of
        None \<Rightarrow> []
      | Some (pre', suf', caps) \<Rightarrow>
          caps #
          (let n = length suf - length suf'
           in if 0 < n then findall_from ic r (rev (take n suf) @ pre) (drop n suf)
              else (case suf of [] \<Rightarrow> [] | c # cs \<Rightarrow> findall_from ic r (c # pre) cs)))"

declare findall_from.simps [simp del]

text \<open>The text of group \<open>n\<close> of a match (the empty string when the group took no part).\<close>

definition group :: "nat \<Rightarrow> (nat \<times> string) list \<Rightarrow> string" where
  "group n caps = (case map_of caps n of None \<Rightarrow> [] | Some g \<Rightarrow> g)"

text \<open>\<open>re.findall\<close> for a pattern with exactly one group: the list of that group's texts.\<close>

definition findall1 :: "bool \<Rightarrow> regex \<Rightarrow> string \<Rightarrow> string list" where
  "findall1 ic r text = map (group 1) (findall_from ic r [] text)"

text \<open>\<open>re.findall\<close> for a pattern with two groups: the list of the pairs of texts.\<close>

definition findall2 :: "bool \<Rightarrow> regex \<Rightarrow> string \<Rightarrow> (string \<times> string) list" where
  "findall2 ic r text = map (\<lambda>caps. (group 1 caps, group 2 caps)) (findall_from ic r [] text)"

section \<open>The assistant's fixed tables\<close>

definition urgent_keywords :: "string list" where
  "urgent_keywords =
     [''urgent'', ''critical'', ''emergency'', ''asap'', ''immediately'', ''cannot access'',
      ''system down'', ''not working'', ''broken'', ''error'', ''failed'', ''blocked'',
      ''deadline'', ''production'', ''outage'', ''severe'', ''major issue'']"

section \<open>Urgency\<close>

text \<open>The pattern \<open>\bw\b\<close> for a word \<open>w\<close>.\<close>

definition word_pattern :: "string \<Rightarrow> regex" where
  "word_pattern w = Cat WordB (Cat (Str w) WordB)"

text \<open>The words of \<open>time_patterns\<close>, in the order of the list:
  \<open>\basap\b, \bimmediately\b, \burgent\b, \bcritical\b, \bemergency\b, \bdeadline\b,
  \btoday\b, \bnow\b\<close>.\<close>

definition time_words :: "string list" where
  "time_words = [''asap'', ''immediately'', ''urgent'', ''critical'',
                 ''emergency'', ''deadline'', ''today'', ''now'']"

definition time_patterns :: "regex list" where
  "time_patterns = map word_pattern time_words"

definition determine_priority :: "string \<Rightarrow> string \<Rightarrow> string" where
  "determine_priority subject body =
     (let text = lower (subject @ '' '' @ body);
          urgent_score = sum_ones (\<lambda>keyword. contains keyword text) urgent_keywords;
          time_urgency = sum_ones (\<lambda>pattern. re_search False pattern text) time_patterns;
          total_urgency = urgent_score + time_urgency
      in if total_urgency \<ge> 2 then ''urgent'' else ''normal'')"

section \<open>Sentiment, rule based\<close>

definition positive_words :: "string list" where
  "positive_words = [''thank'', ''great'', ''excellent'', ''love'', ''amazing'', ''perfect'', ''wonderful'']"

definition negative_words :: "string list" where
  "negative_words = [''problem'', ''issue'', ''error'', ''broken'', ''frustrated'', ''angry'',
                     ''terrible'', ''awful'']"

text \<open>The confidence is one of the two literals 0.7 and 0.6, written here as the
  rationals 7/10 and 6/10; the function does no arithmetic on them.\<close>

definition rule_based_sentiment :: "string \<Rightarrow> string \<times> rat" where
  "rule_based_sentiment text =
     (let text_lower = lower text;
          positive_count = sum_ones (\<lambda>word. contains word text_lower) positive_words;
          negative_count = sum_ones (\<lambda>word. contains word text_lower) negative_words
      in if positive_count > negative_count then (''positive'', 7 / 10)
         else if negative_count > positive_count then (''negative'', 7 / 10)
         else (''neutral'', 6 / 10))"

section \<open>The knowledge base\<close>

text \<open>A row of the table \<open>knowledge_base\<close> as \<open>find_best_solution\<close> reads it:
  category, keywords (one string, separated by commas), solution, escalation_info.\<close>

type_synonym kb_row = "string \<times> string \<times> string \<times> string"

text \<open>The entries that \<open>load_knowledge_base\<close> inserts, in its order.\<close>

definition knowledge_entries :: "kb_row list" where
  "knowledge_entries =
    [(''account_access'',
      ''login, password, access, account, locked, authentication, signin, credentials'',
      ''For account access issues: 1) Try clearing browser cache and cookies 2) Reset password using \"Forgot Password\" link 3) Check if caps lock is on 4) Try different browser or incognito mode'',
      ''If issue persists after basic troubleshooting, escalate to security team for account unlock''),
     (''technical_issues'',
      ''error, bug, broken, not working, technical, system, crash, freeze, slow'',
      ''For technical issues: 1) Check internet connection 2) Clear browser cache 3) Update browser to latest version 4) Try different device 5) Check system status page'',
      ''Complex technical issues should be forwarded to technical support team''),
     (''billing_payment'',
      ''billing, payment, invoice, charge, refund, subscription, price, cost, money'',
      ''For billing inquiries: 1) Check your billing portal for invoice details 2) Verify payment method is valid 3) Contact billing support for refund requests'',
      ''Billing disputes require finance team approval''),
     (''feature_request'',
      ''feature, request, suggestion, enhancement, improvement, new, add, update'',
      ''Thank you for your feature suggestion! We appreciate your feedback. Please visit our feature request portal to submit detailed requirements.'',
      ''Feature requests should be logged with product team for roadmap consideration''),
     (''integration_api'',
      ''api, integration, webhook, developer, code, sdk, documentation, endpoint'',
      ''For API/integration support: 1) Check our developer documentation 2) Verify API key is valid 3) Ensure proper authentication headers 4) Check rate limits'',
      ''Complex integration issues require developer support team assistance'')]"

text \<open>\<open>[kw.strip() for kw in kb_keywords.split(',')]\<close>\<close>

definition kb_keywords_list :: "string \<Rightarrow> string list" where
  "kb_keywords_list kb_keywords = map strip (split kb_keywords '','')"

text \<open>The score of one row (the body of the loop up to \<open>total_score\<close>).\<close>

definition total_score :: "string list \<Rightarrow> string \<Rightarrow> string \<Rightarrow> nat" where
  "total_score keywords text kb_keywords =
     (let overlap = card (set keywords \<inter> set (kb_keywords_list kb_keywords));
          text_similarity =
            sum_ones (\<lambda>kw. contains (lower kw) (lower text)) (kb_keywords_list kb_keywords)
      in overlap * 2 + text_similarity)"

text \<open>One turn of the loop over the rows: the state is \<open>(best_match, best_score)\<close>.\<close>

fun consider_row ::
  "string list \<Rightarrow> string \<Rightarrow> (string \<times> string) option \<times> nat \<Rightarrow> kb_row
     \<Rightarrow> (string \<times> string) option \<times> nat" where
  "consider_row keywords text (best_match, best_score) (category, kb_keywords, solution, escalation) =
     (if total_score keywords text kb_keywords > best_score
      then (Some (solution, escalation), total_score keywords text kb_keywords)
      else (best_match, best_score))"

definition generic_solution :: "string \<times> string" where
  "generic_solution =
     (''I'll look into your inquiry and get back to you with a detailed response shortly.'',
      ''General inquiry - route to appropriate team based on content'')"

text \<open>\<open>find_best_solution\<close>; the first argument is the content of the table
  \<open>knowledge_base\<close> in the order in which the query returns it. A match is a pair of
  two strings, which Python takes as true whatever the strings are, so the test
  \<open>if best_match\<close> asks whether a match was stored.\<close>

definition find_best_solution ::
  "kb_row list \<Rightarrow> string list \<Rightarrow> string \<Rightarrow> string \<Rightarrow> string \<times> string" where
  "find_best_solution kb_entries keywords subject body =
     (let text = subject @ '' '' @ body;
          (best_match, best_score) = foldl (consider_row keywords text) (None, 0) kb_entries
      in case best_match of Some m \<Rightarrow> m | None \<Rightarrow> generic_solution)"

section \<open>Signal extraction\<close>

text \<open>The alternation \<open>w1|w2|...\<close> of literal words, tried from left to right.\<close>

fun alts :: "string list \<Rightarrow> regex" where
  "alts [] = Str []"
| "alts [w] = Str w"
| "alts (w # v # ws) = Alt (Str w) (alts (v # ws))"

text \<open>The shape \<open>\b(w1|w2|...)\b\<close> of the four \<open>tech_patterns\<close>.\<close>

definition tech_pattern :: "string list \<Rightarrow> regex" where
  "tech_pattern ws = Cat WordB (Cat (Grp 1 (alts ws)) WordB)"

text \<open>
  \<^verbatim>\<open>\b(api|sdk|webhook|integration|database|server|application)\b\<close>
  \<^verbatim>\<open>\b(error code|bug|crash|timeout|connection)\b\<close>
  \<^verbatim>\<open>\b(account|login|password|authentication|access)\b\<close>
  \<^verbatim>\<open>\b(billing|payment|invoice|subscription|refund)\b\<close>
\<close>

definition tech_words :: "string list list" where
  "tech_words =
     [[''api'', ''sdk'', ''webhook'', ''integration'', ''database'', ''server'', ''application''],
      [''error code'', ''bug'', ''crash'', ''timeout'', ''connection''],
      [''account'', ''login'', ''password'', ''authentication'', ''access''],
      [''billing'', ''payment'', ''invoice'', ''subscription'', ''refund'']]"

definition tech_patterns :: "regex list" where
  "tech_patterns = map tech_pattern tech_words"

text \<open>The list \<open>keywords\<close> of \<open>extract_keywords\<close> before it is made unique: the
  matches of the patterns, pattern after pattern, then the urgent keywords present
  in the lowercase text.\<close>

definition collect_keywords :: "string \<Rightarrow> string list" where
  "collect_keywords text =
     concat (map (\<lambda>pattern. findall1 True pattern text) tech_patterns)
     @ filter (\<lambda>keyword. contains keyword (lower text)) urgent_keywords"

text \<open>
  \<open>list(set(keywords))[:10]\<close>. The order in which a Python set of strings is iterated
  depends on the hash values of the strings, which change from one interpreter
  process to the next, and on the order of insertion. The first argument
  \<open>list_of_set\<close> stands for it: it maps the list that is turned into a set to the list
  that iterating the set gives.
\<close>

definition extract_keywords :: "(string list \<Rightarrow> string list) \<Rightarrow> string \<Rightarrow> string list" where
  "extract_keywords list_of_set text = take 10 (list_of_set (collect_keywords text))"

text \<open>
  \<^verbatim>\<open>(\+?\d{1,3}[-.\s]?\(?\d{3}\)?[-.\s]?\d{3}[-.\s]?\d{4})\<close>
\<close>

definition phone_pattern :: regex where
  "phone_pattern =
     Grp 1
      (Cat (Rep (Lit CHR ''+'') 0 (Some 1))
      (Cat (Rep (Set [Digit]) 1 (Some 3))
      (Cat (Rep (Set [Ch CHR ''-'', Ch CHR ''.'', Space]) 0 (Some 1))
      (Cat (Rep (Lit CHR ''('') 0 (Some 1))
      (Cat (Rep (Set [Digit]) 3 (Some 3))
      (Cat (Rep (Lit CHR '')'') 0 (Some 1))
      (Cat (Rep (Set [Ch CHR ''-'', Ch CHR ''.'', Space]) 0 (Some 1))
      (Cat (Rep (Set [Digit]) 3 (Some 3))
      (Cat (Rep (Set [Ch CHR ''-'', Ch CHR ''.'', Space]) 0 (Some 1))
           (Rep (Set [Digit]) 4 (Some 4)))))))))))"

text \<open>
  \<^verbatim>\<open>\b[A-Za-z0-9._%+-]+@[A-Za-z0-9.-]+\.[A-Z|a-z]{2,}\b\<close>
  The pattern has no group, so \<open>findall\<close> reports the whole match; it is group 0 here.
\<close>

definition email_pattern :: regex where
  "email_pattern =
     Grp 0
      (Cat WordB
      (Cat (Rep (Set [Range CHR ''A'' CHR ''Z'', Range CHR ''a'' CHR ''z'', Range CHR ''0'' CHR ''9'',
                      Ch CHR ''.'', Ch CHR ''_'', Ch CHR ''%'', Ch CHR ''+'', Ch CHR ''-'']) 1 None)
      (Cat (One (Lit CHR ''@''))
      (Cat (Rep (Set [Range CHR ''A'' CHR ''Z'', Range CHR ''a'' CHR ''z'', Range CHR ''0'' CHR ''9'',
                      Ch CHR ''.'', Ch CHR ''-'']) 1 None)
      (Cat (One (Lit CHR ''.''))
      (Cat (Rep (Set [Range CHR ''A'' CHR ''Z'', Ch CHR ''|'', Range CHR ''a'' CHR ''z'']) 2 None)
           WordB))))))"

text \<open>
  \<^verbatim>\<open>(@\w+|linkedin\.com/in/\w+|twitter\.com/\w+)\<close>
\<close>

definition social_pattern :: regex where
  "social_pattern =
     Grp 1
      (Alt (Cat (One (Lit CHR ''@'')) (Rep (Set [Word]) 1 None))
      (Alt (Cat (Str ''linkedin.com/in/'') (Rep (Set [Word]) 1 None))
           (Cat (Str ''twitter.com/'') (Rep (Set [Word]) 1 None))))"

definition no_contact_info :: string where
  "no_contact_info = ''No additional contact info found''"

definition extract_contact_info :: "string \<Rightarrow> string" where
  "extract_contact_info text =
     (let phones = findall1 False phone_pattern text;
          emails = map (group 0) (findall_from False email_pattern [] text);
          social = findall1 True social_pattern text;
          contact_info =
            (case phones of [] \<Rightarrow> [] | p # _ \<Rightarrow> [''Phone: '' @ p])
            @ (case emails of [] \<Rightarrow> [] | e # _ \<Rightarrow> [''Alt Email: '' @ e])
            @ (case social of [] \<Rightarrow> [] | s # _ \<Rightarrow> [''Social: '' @ s])
      in if contact_info \<noteq> [] then join ''; '' contact_info else no_contact_info)"

text \<open>The shape \<open>(w1|w2|...) ([^.!?]*)\<close> of the three \<open>requirement_patterns\<close>.\<close>

definition requirement_pattern :: "string list \<Rightarrow> regex" where
  "requirement_pattern ws =
     Cat (Grp 1 (alts ws))
    (Cat (One (Lit CHR '' ''))
         (Grp 2 (Rep (NSet [Ch CHR ''.'', Ch CHR ''!'', Ch CHR ''?'']) 0 None)))"

text \<open>
  \<^verbatim>\<open>(need|want|require|request|looking for|help with) ([^.!?]*)\<close>
  \<^verbatim>\<open>(can you|could you|please) ([^.!?]*)\<close>
  \<^verbatim>\<open>(i would like|i want|i need) ([^.!?]*)\<close>
\<close>

definition requirement_triggers :: "string list list" where
  "requirement_triggers =
     [[''need'', ''want'', ''require'', ''request'', ''looking for'', ''help with''],
      [''can you'', ''could you'', ''please''],
      [''i would like'', ''i want'', ''i need'']]"

definition requirement_patterns :: "regex list" where
  "requirement_patterns = map requirement_pattern requirement_triggers"

definition general_inquiry :: string where
  "general_inquiry = ''General support inquiry''"

text \<open>The requirements that one pattern adds: of its first three matches, those whose
  two groups, joined by a blank and stripped, are longer than 10 characters.\<close>

definition pattern_requirements :: "regex \<Rightarrow> string \<Rightarrow> string list" where
  "pattern_requirements pattern text =
     filter (\<lambda>requirement. length requirement > 10)
       (map (\<lambda>(a, b). strip (join '' '' [a, b])) (take 3 (findall2 True pattern text)))"

definition extract_requirements :: "string \<Rightarrow> string \<Rightarrow> string" where
  "extract_requirements subject body =
     (let text = subject @ '' '' @ body;
          requirements = concat (map (\<lambda>pattern. pattern_requirements pattern text) requirement_patterns)
      in if requirements \<noteq> [] then join ''; '' requirements else general_inquiry)"

section \<open>Response templates\<close>

text \<open>The four templates of \<open>load_response_templates\<close>; a line break of the source is
  written \<open>\<newline>\<close>.\<close>

definition template_urgent_negative :: string where
  "template_urgent_negative =
     ''Dear {sender_name},\<newline>\<newline>Thank you for reaching out, and I sincerely apologize for the urgent issue you're experiencing. I understand how critical this situation is for you.\<newline>\<newline>I'm prioritizing your request and escalating it to our specialized team immediately. Here's what we're doing to resolve this:\<newline>\<newline>{solution}\<newline>\<newline>Expected resolution time: Within 2 hours\<newline>Ticket reference: #{ticket_id}\<newline>\<newline>I'll personally monitor this case and update you every 30 minutes until resolved. You can also reach our emergency support line at +1-800-SUPPORT.\<newline>\<newline>We truly appreciate your patience during this critical situation.\<newline>\<newline>Best regards,\<newline>AI Support Assistant\<newline>Customer Success Team''"

definition template_normal_positive :: string where
  "template_normal_positive =
     ''Hello {sender_name},\<newline>\<newline>Thank you for your message! We're delighted to hear from you and appreciate your continued trust in our services.\<newline>\<newline>{solution}\<newline>\<newline>{additional_info}\<newline>\<newline>If you need any further assistance or have additional questions, please don't hesitate to reach out. We're here to ensure you have the best possible experience.\<newline>\<newline>Best regards,\<newline>AI Support Assistant\<newline>Customer Success Team''"

definition template_normal_neutral :: string where
  "template_normal_neutral =
     ''Hello {sender_name},\<newline>\<newline>Thank you for contacting us. We're here to help with your inquiry.\<newline>\<newline>{solution}\<newline>\<newline>{additional_info}\<newline>\<newline>If this doesn't resolve your issue or if you have any other questions, please let us know. We're committed to providing you with the support you need.\<newline>\<newline>Best regards,\<newline>AI Support Assistant\<newline>Customer Success Team''"

definition template_urgent_neutral :: string where
  "template_urgent_neutral =
     ''Dear {sender_name},\<newline>\<newline>Thank you for your urgent request. I understand the importance of resolving this quickly.\<newline>\<newline>I'm prioritizing your case and here's how we can address this:\<newline>\<newline>{solution}\<newline>\<newline>Expected resolution time: Within 4 hours\<newline>Priority ticket: #{ticket_id}\<newline>\<newline>I'll keep you updated on our progress. For immediate assistance, please call our priority support line.\<newline>\<newline>Best regards,\<newline>AI Support Assistant\<newline>Customer Success Team''"

text \<open>The dictionary of the templates, by key.\<close>

definition response_templates :: "(string \<times> string) list" where
  "response_templates =
     [(''urgent_negative'', template_urgent_negative),
      (''normal_positive'', template_normal_positive),
      (''normal_neutral'', template_normal_neutral),
      (''urgent_neutral'', template_urgent_neutral)]"

section \<open>Response synthesis\<close>

text \<open>The values found in an analysis record: a string, or \<open>None\<close> (a column of the
  table \<open>emails\<close> that is NULL, or a field given as \<open>None\<close>).\<close>

datatype pyval = PStr string | PNone

text \<open>The exceptions that the statements of \<open>generate_ai_response\<close> can raise.\<close>

datatype error = KeyError | AttributeError | TypeError | ValueError | IndexError | UnboundLocalError

type_synonym email_data = "string \<rightharpoonup> pyval"

text \<open>Sequencing of two steps of which the first may raise.\<close>

definition and_then :: "error + 'a \<Rightarrow> ('a \<Rightarrow> error + 'b) \<Rightarrow> error + 'b" where
  "and_then m f = (case m of Inl e \<Rightarrow> Inl e | Inr x \<Rightarrow> f x)"

text \<open>\<open>d[k]\<close>\<close>

definition getitem :: "email_data \<Rightarrow> string \<Rightarrow> error + pyval" where
  "getitem d k = (case d k of None \<Rightarrow> Inl KeyError | Some v \<Rightarrow> Inr v)"

text \<open>A value inside an f-string.\<close>

fun py_str :: "pyval \<Rightarrow> string" where
  "py_str (PStr s) = s"
| "py_str PNone = ''None''"

text \<open>\<open>s.replace(a, b)\<close> for single characters.\<close>

definition replace_char :: "char \<Rightarrow> char \<Rightarrow> string \<Rightarrow> string" where
  "replace_char a b s = map (\<lambda>c. if c = a then b else c) s"

text \<open>\<open>s.title()\<close>: a letter that follows a letter is lowercased, any other letter is
  uppercased. The flag tells whether the previous character was a letter.\<close>

fun title_from :: "bool \<Rightarrow> string \<Rightarrow> string" where
  "title_from prev [] = []"
| "title_from prev (c # cs) =
     (if is_upper c \<or> is_lower c
      then (if prev then lower_char c else upper_char c) # title_from True cs
      else c # title_from False cs)"

definition title :: "string \<Rightarrow> string" where
  "title s = title_from False s"

text \<open>
  \<open>template.format(**kw)\<close> for the replacement fields \<open>{name}\<close> and the escapes \<open>{{\<close>
  and \<open>}}\<close>, read from left to right. The second argument is the name of the field
  being read, if the scan is inside one. (The templates of the program use no
  conversion, format specification, attribute or index in a field.)
\<close>

fun format_from :: "(string \<times> string) list \<Rightarrow> string option \<Rightarrow> string \<Rightarrow> error + string" where
  "format_from kw None [] = Inr []"
| "format_from kw (Some name) [] = Inl ValueError"
| "format_from kw None (c # cs) =
     (if c = CHR ''{'' then
        (case cs of
           d # cs' \<Rightarrow>
             if d = CHR ''{'' then and_then (format_from kw None cs') (\<lambda>r. Inr (CHR ''{'' # r))
             else format_from kw (Some []) cs
         | [] \<Rightarrow> Inl ValueError)
      else if c = CHR ''}'' then
        (case cs of
           d # cs' \<Rightarrow>
             if d = CHR ''}'' then and_then (format_from kw None cs') (\<lambda>r. Inr (CHR ''}'' # r))
             else Inl ValueError
         | [] \<Rightarrow> Inl ValueError)
      else and_then (format_from kw None cs) (\<lambda>r. Inr (c # r)))"
| "format_from kw (Some name) (c # cs) =
     (if c = CHR ''}'' then
        (case map_of kw name of
           None \<Rightarrow> Inl KeyError
         | Some v \<Rightarrow> and_then (format_from kw None cs) (\<lambda>r. Inr (v @ r)))
      else format_from kw (Some (name @ [c])) cs)"

definition format_template :: "string \<Rightarrow> (string \<times> string) list \<Rightarrow> error + string" where
  "format_template template kw = format_from kw None template"

text \<open>The first statement of the \<open>try\<close> block:
  \<open>email_data['sender'].split('@')[0].replace('.', ' ').title()\<close>.\<close>

definition sender_name_of :: "email_data \<Rightarrow> error + string" where
  "sender_name_of d =
     and_then (getitem d ''sender'') (\<lambda>sender.
       case sender of
         PNone \<Rightarrow> Inl AttributeError
       | PStr s \<Rightarrow>
           (case split s ''@'' of
              [] \<Rightarrow> Inl IndexError
            | local # _ \<Rightarrow> Inr (title (replace_char CHR ''.'' CHR '' '' local))))"

text \<open>\<open>email_data['keywords'].split(', ') if email_data['keywords'] else []\<close>\<close>

definition keywords_of :: "email_data \<Rightarrow> error + string list" where
  "keywords_of d =
     and_then (getitem d ''keywords'') (\<lambda>k.
       case k of
         PNone \<Rightarrow> Inr []
       | PStr s \<Rightarrow> if s \<noteq> [] then Inr (split s '', '') else Inr [])"

text \<open>The call \<open>find_best_solution(keywords, email_data['subject'], email_data['body'])\<close>:
  the concatenation \<open>subject + " " + body\<close> raises TypeError unless both are strings.\<close>

definition solution_for :: "kb_row list \<Rightarrow> string list \<Rightarrow> email_data \<Rightarrow> error + string \<times> string" where
  "solution_for kb_entries keywords d =
     and_then (getitem d ''subject'') (\<lambda>subject.
     and_then (getitem d ''body'') (\<lambda>body.
       case (subject, body) of
         (PStr s, PStr b) \<Rightarrow> Inr (find_best_solution kb_entries keywords s b)
       | _ \<Rightarrow> Inl TypeError))"

text \<open>The choice of the template: the key \<open>f"{priority}_{sentiment}"\<close>, replaced by
  \<open>normal_neutral\<close> when it is not a key of the dictionary, then looked up.\<close>

definition select_template :: "pyval \<Rightarrow> pyval \<Rightarrow> error + string" where
  "select_template priority sentiment =
     (let template_key = py_str priority @ ''_'' @ py_str sentiment;
          template_key = (if template_key \<notin> fst ` set response_templates
                          then ''normal_neutral'' else template_key)
      in case map_of response_templates template_key of
           None \<Rightarrow> Inl KeyError
         | Some template \<Rightarrow> Inr template)"

text \<open>\<open>additional_info\<close>\<close>

definition additional_info_of :: "email_data \<Rightarrow> pyval \<Rightarrow> string \<Rightarrow> error + string" where
  "additional_info_of d priority escalation =
     and_then (getitem d ''body'') (\<lambda>body.
       case body of
         PNone \<Rightarrow> Inl AttributeError
       | PStr b \<Rightarrow>
           if contains ''thank'' (lower b) then Inr ''We truly appreciate your positive feedback!''
           else if priority = PStr ''urgent'' then Inr (''This case has been escalated. '' @ escalation)
           else Inr [])"

text \<open>The statements of the \<open>try\<close> block after the first. \<open>now\<close> is the text that
  \<open>datetime.datetime.now().strftime('%Y%m%d%H%M%S')\<close> gives at the time of the call.\<close>

definition try_block :: "kb_row list \<Rightarrow> string \<Rightarrow> email_data \<Rightarrow> string \<Rightarrow> error + string" where
  "try_block kb_entries now d sender_name =
     and_then (getitem d ''sentiment'') (\<lambda>sentiment.
     and_then (getitem d ''priority'') (\<lambda>priority.
     and_then (keywords_of d) (\<lambda>keywords.
     and_then (solution_for kb_entries keywords d) (\<lambda>(solution, escalation).
     and_then (select_template priority sentiment) (\<lambda>template.
     let ticket_id = ''SUP'' @ now in
     and_then (additional_info_of d priority escalation) (\<lambda>additional_info.
       format_template template
         [(''sender_name'', sender_name), (''solution'', solution),
          (''ticket_id'', ticket_id), (''additional_info'', additional_info)]))))))"

definition acknowledgment :: "string \<Rightarrow> string" where
  "acknowledgment sender_name =
     ''Dear '' @ sender_name @
     '',\<newline>\<newline>Thank you for contacting us. We've received your message and will respond within 24 hours.\<newline>\<newline>Best regards,\<newline>Support Team''"

text \<open>
  \<open>generate_ai_response\<close>. The handler of the \<open>try\<close> block builds its message from
  the local variable \<open>sender_name\<close>. When the first statement of the block raised,
  the variable was never assigned, and the handler raises UnboundLocalError itself;
  that exception leaves the function.
\<close>

definition generate_ai_response :: "kb_row list \<Rightarrow> string \<Rightarrow> email_data \<Rightarrow> error + string" where
  "generate_ai_response kb_entries now d =
     (case sender_name_of d of
        Inl e \<Rightarrow> Inl UnboundLocalError
      | Inr sender_name \<Rightarrow>
          (case try_block kb_entries now d sender_name of
             Inl e \<Rightarrow> Inr (acknowledgment sender_name)
           | Inr response \<Rightarrow> Inr response))"

section \<open>Regeneration\<close>

text \<open>A row of the table \<open>emails\<close>, one field for each column (the id is the key of
  the table).\<close>

record email_row =
  col_sender :: pyval
  col_subject :: pyval
  col_body :: pyval
  col_date_received :: pyval
  col_priority :: pyval
  col_sentiment :: pyval
  col_keywords :: pyval
  col_contact_info :: pyval
  col_requirements :: pyval
  col_ai_response :: pyval
  col_status :: pyval

record database =
  emails :: "nat \<rightharpoonup> email_row"
  knowledge_base :: "kb_row list"

text \<open>The answers of the route \<open>/api/regenerate_response\<close>: the new response, 404, or 500
  with the exception.\<close>

datatype reply = Regenerated string | NotFound | ServerError error

text \<open>The route \<open>regenerate_response\<close> for an email id: it reads six columns of the row,
  synthesises a response and stores it in the column \<open>ai_response\<close>.\<close>

definition regenerate_response :: "database \<Rightarrow> string \<Rightarrow> nat \<Rightarrow> database \<times> reply" where
  "regenerate_response db now email_id =
     (case emails db email_id of
        None \<Rightarrow> (db, NotFound)
      | Some row \<Rightarrow>
          (let email_data =
                 [''sender'' \<mapsto> col_sender row, ''subject'' \<mapsto> col_subject row,
                  ''body'' \<mapsto> col_body row, ''priority'' \<mapsto> col_priority row,
                  ''sentiment'' \<mapsto> col_sentiment row, ''keywords'' \<mapsto> col_keywords row]
           in case generate_ai_response (knowledge_base db) now email_data of
                Inl e \<Rightarrow> (db, ServerError e)
              | Inr new_response \<Rightarrow>
                  (db\<lparr>emails := (emails db)(email_id \<mapsto> row\<lparr>col_ai_response := PStr new_response\<rparr>)\<rparr>,
                   Regenerated new_response)))"

text \<open>A database with one stored email, for the examples below.\<close>

definition example_database :: database where
  "example_database = \<lparr>emails = [1 \<mapsto> \<lparr>col_sender = PStr ''jane.doe@example.com'', col_subject = PStr ''Urgent: login'',
                              col_body = PStr ''I cannot access my account'', col_date_received = PStr ''2025-01-01T12:00:00'',
                              col_priority = PStr ''urgent'', col_sentiment = PStr ''neutral'',
                              col_keywords = PStr ''login, account, urgent, cannot access'',
                              col_contact_info = PStr ''No additional contact info found'',
                              col_requirements = PStr ''General support inquiry'',
                              col_ai_response = PStr ''old'', col_status = PStr ''pending''\<rparr>],
           knowledge_base = knowledge_entries\<rparr>"

section \<open>The specification's notions\<close>

text \<open>The definitions of this section follow the words of the specification; the
  theorems below compare them with the program's functions.\<close>

text \<open>\<open>w\<close> is present in \<open>s\<close> as a substring.\<close>

definition occurs_in :: "string \<Rightarrow> string \<Rightarrow> bool" where
  "occurs_in w s = (\<exists>u v. s = u @ w @ v)"

text \<open>\<open>w\<close> is present in \<open>s\<close> between two word boundaries.\<close>

definition occurs_as_word :: "string \<Rightarrow> string \<Rightarrow> bool" where
  "occurs_as_word w s =
     (\<exists>u v. s = u @ w @ v \<and> at_boundary (rev u) (w @ v) \<and> at_boundary (rev w @ rev u) v)"

text \<open>\<open>w\<close> is present in \<open>s\<close> as a substring, letter case ignored.\<close>

definition ci_occurs_in :: "string \<Rightarrow> string \<Rightarrow> bool" where
  "ci_occurs_in w s = (\<exists>u m v. s = u @ m @ v \<and> lower m = lower w)"

text \<open>The number of urgent keywords present as substrings, and the number of
  time-urgency patterns found.\<close>

definition keyword_hits :: "string \<Rightarrow> nat" where
  "keyword_hits text = card {k \<in> set urgent_keywords. occurs_in k text}"

definition pattern_hits :: "string \<Rightarrow> nat" where
  "pattern_hits text = card {w \<in> set time_words. occurs_as_word w text}"

text \<open>The numbers of positive and of negative lexicon words present in a text.\<close>

definition positive_hits :: "string \<Rightarrow> nat" where
  "positive_hits text = card {w \<in> set positive_words. ci_occurs_in w text}"

definition negative_hits :: "string \<Rightarrow> nat" where
  "negative_hits text = card {w \<in> set negative_words. ci_occurs_in w text}"

text \<open>The score of a knowledge-base row for a list of extracted keywords and the text
  of subject and body: twice the number of extracted keywords that are keywords of the
  row, plus the number of the row's keywords present in the text, letter case ignored.
  (Subject and body are joined by a blank, as everywhere in the program.)\<close>

definition entry_score :: "string list \<Rightarrow> string \<Rightarrow> string \<Rightarrow> kb_row \<Rightarrow> nat" where
  "entry_score keywords subject body row =
     2 * card (set keywords \<inter> set (kb_keywords_list (fst (snd row))))
     + length (filter (\<lambda>kw. ci_occurs_in kw (subject @ '' '' @ body)) (kb_keywords_list (fst (snd row))))"

text \<open>Row \<open>i\<close> is the earliest row of the highest score.\<close>

definition first_best :: "(kb_row \<Rightarrow> nat) \<Rightarrow> kb_row list \<Rightarrow> nat \<Rightarrow> bool" where
  "first_best score kb i =
     (i < length kb \<and> (\<forall>j < length kb. score (kb ! j) \<le> score (kb ! i))
      \<and> (\<forall>j < i. score (kb ! j) < score (kb ! i)))"

text \<open>Two answers of the regeneration route are the same apart from the ticket id:
  the same failure, or the same pieces of text with the two ticket ids between them.\<close>

definition same_apart_from_ticket :: "string \<Rightarrow> string \<Rightarrow> reply \<Rightarrow> reply \<Rightarrow> bool" where
  "same_apart_from_ticket t1 t2 r1 r2 =
     ((r1 = r2 \<and> (r1 = NotFound \<or> (\<exists>e. r1 = ServerError e)))
      \<or> (\<exists>chunks. chunks \<noteq> [] \<and> r1 = Regenerated (join t1 chunks) \<and> r2 = Regenerated (join t2 chunks)))"

text \<open>De-duplication that keeps the first occurrence of every member, in the order of
  the first occurrences. The first argument lists the members seen so far.\<close>

fun first_seen_from :: "'a list \<Rightarrow> 'a list \<Rightarrow> 'a list" where
  "first_seen_from seen [] = []"
| "first_seen_from seen (x # xs) =
     (if x \<in> set seen then first_seen_from seen xs else x # first_seen_from (x # seen) xs)"

definition dedupe_first_seen :: "'a list \<Rightarrow> 'a list" where
  "dedupe_first_seen xs = first_seen_from [] xs"

text \<open>One of the orders in which a set may be iterated: the reverse of the first-seen
  order.\<close>

definition last_seen_first :: "'a list \<Rightarrow> 'a list" where
  "last_seen_first xs = rev (dedupe_first_seen xs)"

text \<open>The requirements that qualify for one pattern: of its first three matches,
  the captures, joined by a blank and stripped, that are longer than 10 characters.\<close>

definition qualifying :: "regex \<Rightarrow> string \<Rightarrow> string list" where
  "qualifying p txt =
     [r \<leftarrow> map (\<lambda>(a, b). strip (a @ '' '' @ b)) (take 3 (findall2 True p txt)). 10 < length r]"

section \<open>Notions used in the proofs\<close>

text \<open>The invariant of the loop over the knowledge base: no match is stored and every
  row seen so far scores 0, or the stored match is that of the earliest row of the
  highest score among the rows seen, and that score is positive.\<close>

definition loop_inv :: "(kb_row \<Rightarrow> nat) \<Rightarrow> kb_row list \<Rightarrow> (string \<times> string) option \<times> nat \<Rightarrow> bool" where
  "loop_inv score seen st =
     (case fst st of
        None \<Rightarrow> snd st = 0 \<and> (\<forall>row \<in> set seen. score row = 0)
      | Some m \<Rightarrow> \<exists>i. first_best score seen i \<and> m = snd (snd (seen ! i)) \<and> snd st = score (seen ! i) \<and> 0 < snd st)"

text \<open>A response as a function of the ticket id: an exception that does not depend on
  the ticket id, or a fixed list of pieces of text with the ticket id between them.\<close>

definition ticket_shape :: "(string \<Rightarrow> error + string) \<Rightarrow> bool" where
  "ticket_shape f =
     ((\<exists>e. \<forall>t. f t = Inl e) \<or> (\<exists>chunks. chunks \<noteq> [] \<and> (\<forall>t. f t = Inr (join t chunks))))"

text \<open>The keyword arguments of the call of format, as a function of the ticket id.\<close>

definition fields :: "string \<Rightarrow> string \<Rightarrow> string \<Rightarrow> string \<Rightarrow> (string \<times> string) list" where
  "fields a b c t = [(''sender_name'', a), (''solution'', b), (''ticket_id'', t), (''additional_info'', c)]"

text \<open>The record that the route builds from a row.\<close>

definition stored_fields :: "email_row \<Rightarrow> email_data" where
  "stored_fields row =
     [''sender'' \<mapsto> col_sender row, ''subject'' \<mapsto> col_subject row,
      ''body'' \<mapsto> col_body row, ''priority'' \<mapsto> col_priority row,
      ''sentiment'' \<mapsto> col_sentiment row, ''keywords'' \<mapsto> col_keywords row]"

text \<open>The numbers of the groups of a pattern.\<close>

fun groups_of :: "regex \<Rightarrow> nat set" where
  "groups_of (One a) = {}"
| "groups_of (Str w) = {}"
| "groups_of (Rep a lo hi) = {}"
| "groups_of (Cat r1 r2) = groups_of r1 \<union> groups_of r2"
| "groups_of (Alt r1 r2) = groups_of r1 \<union> groups_of r2"
| "groups_of (Grp n r) = insert n (groups_of r)"
| "groups_of WordB = {}"

text \<open>The first letters of the trigger phrases of the requirement patterns.\<close>

definition trigger_initials :: string where
  "trigger_initials = ''nwrlhcpi''"

section \<open>Substrings and searches\<close>

lemma starts_with_iff: "starts_with s w \<longleftrightarrow> (\<exists>v. s = w @ v)"
  by (induction s w rule: starts_with.induct) auto

lemma contains_iff: "contains w s \<longleftrightarrow> occurs_in w s"
proof (induction s)
  case Nil
  then show ?case by (auto simp: occurs_in_def)
next
  case (Cons x s)
  have "occurs_in w (x # s) \<longleftrightarrow> (\<exists>v. x # s = w @ v) \<or> occurs_in w s"
    unfolding occurs_in_def
  proof
    assume "\<exists>u v. x # s = u @ w @ v"
    then obtain u v where uv: "x # s = u @ w @ v" by blast
    show "(\<exists>v. x # s = w @ v) \<or> (\<exists>u v. s = u @ w @ v)"
    proof (cases u)
      case Nil
      with uv show ?thesis by auto
    next
      case (Cons y u')
      with uv have "s = u' @ w @ v" by simp
      then show ?thesis by blast
    qed
  next
    assume "(\<exists>v. x # s = w @ v) \<or> (\<exists>u v. s = u @ w @ v)"
    then show "\<exists>u v. x # s = u @ w @ v"
    proof
      assume "\<exists>v. x # s = w @ v"
      then obtain v where "x # s = [] @ w @ v" by auto
      then show ?thesis by blast
    next
      assume "\<exists>u v. s = u @ w @ v"
      then obtain u v where "x # s = (x # u) @ w @ v" by auto
      then show ?thesis by blast
    qed
  qed
  with Cons show ?case by (simp add: starts_with_iff)
qed

lemma sum_ones_length: "sum_ones P xs = length (filter P xs)"
  by (induction xs) (auto simp: sum_ones_def)

lemma sum_ones_card: "distinct xs \<Longrightarrow> sum_ones P xs = card {x \<in> set xs. P x}"
  by (simp add: sum_ones_length distinct_length_filter Int_def conj_commute)

lemma sum_ones_map: "sum_ones P (map f xs) = sum_ones (\<lambda>x. P (f x)) xs"
  by (simp add: sum_ones_length filter_map comp_def)

lemma search_from_iff:
  "search_from ic r pre suf \<noteq> None \<longleftrightarrow> (\<exists>u v. suf = u @ v \<and> ms ic r (rev u @ pre, v, []) \<noteq> [])"
proof (induction suf arbitrary: pre)
  case Nil
  then show ?case by (auto split: list.splits)
next
  case (Cons c cs)
  show ?case
  proof (cases "ms ic r (pre, c # cs, [])")
    case Nil
    have "(\<exists>u v. c # cs = u @ v \<and> ms ic r (rev u @ pre, v, []) \<noteq> []) \<longleftrightarrow>
          (\<exists>u v. cs = u @ v \<and> ms ic r (rev u @ c # pre, v, []) \<noteq> [])"
    proof
      assume "\<exists>u v. c # cs = u @ v \<and> ms ic r (rev u @ pre, v, []) \<noteq> []"
      then obtain u v where uv: "c # cs = u @ v" "ms ic r (rev u @ pre, v, []) \<noteq> []" by blast
      with Nil obtain u' where "u = c # u'" by (cases u) auto
      with uv show "\<exists>u v. cs = u @ v \<and> ms ic r (rev u @ c # pre, v, []) \<noteq> []" by auto
    next
      assume "\<exists>u v. cs = u @ v \<and> ms ic r (rev u @ c # pre, v, []) \<noteq> []"
      then obtain u v where "c # cs = (c # u) @ v" "ms ic r (rev (c # u) @ pre, v, []) \<noteq> []" by auto
      then show "\<exists>u v. c # cs = u @ v \<and> ms ic r (rev u @ pre, v, []) \<noteq> []" by blast
    qed
    with Nil Cons.IH [of "c # pre"] show ?thesis by simp
  next
    case (Cons m list)
    then have "c # cs = [] @ (c # cs) \<and> ms ic r (rev [] @ pre, c # cs, []) \<noteq> []" by simp
    then have "\<exists>u v. c # cs = u @ v \<and> ms ic r (rev u @ pre, v, []) \<noteq> []" by blast
    with Cons show ?thesis by simp
  qed
qed

lemma str_ok_exact: "str_ok False w suf \<longleftrightarrow> (\<exists>v. suf = w @ v)"
  by (induction False w suf rule: str_ok.induct) auto

lemma ms_word_pattern:
  "ms False (word_pattern w) (pre, suf, []) \<noteq> [] \<longleftrightarrow>
     at_boundary pre suf \<and> (\<exists>v. suf = w @ v \<and> at_boundary (rev w @ pre) v)"
  by (auto simp: word_pattern_def str_ok_exact)

lemma re_search_word_pattern: "re_search False (word_pattern w) text \<longleftrightarrow> occurs_as_word w text"
  unfolding re_search_def search_from_iff occurs_as_word_def ms_word_pattern
  by auto

lemma distinct_urgent_keywords: "distinct urgent_keywords"
  by (simp add: urgent_keywords_def)

lemma distinct_time_words: "distinct time_words"
  by (simp add: time_words_def)

lemma urgent_score_eq: "sum_ones (\<lambda>keyword. contains keyword text) urgent_keywords = keyword_hits text"
  by (simp add: sum_ones_card distinct_urgent_keywords keyword_hits_def contains_iff)

lemma time_urgency_eq: "sum_ones (\<lambda>pattern. re_search False pattern text) time_patterns = pattern_hits text"
  by (simp add: time_patterns_def sum_ones_map sum_ones_card distinct_time_words pattern_hits_def
      re_search_word_pattern)

lemma occurs_as_word_occurs_in: "occurs_as_word w s \<Longrightarrow> occurs_in w s"
  by (auto simp: occurs_as_word_def occurs_in_def)

lemma card_single_hit:
  assumes "w \<in> set xs" "P w" "\<forall>k \<in> set xs. k \<noteq> w \<longrightarrow> \<not> P k"
  shows "card {k \<in> set xs. P k} = 1"
proof -
  from assms have "{k \<in> set xs. P k} = {w}" by blast
  then show ?thesis by simp
qed

lemma ball_list_conv: "(\<forall>x \<in> set xs. P x) \<longleftrightarrow> list_all P xs"
  by (simp add: list_all_iff)

lemma map_eq_append_split:
  "map f s = u @ x \<Longrightarrow> \<exists>a r. s = a @ r \<and> map f a = u \<and> map f r = x"
  by (auto simp: map_eq_append_conv)

lemma ci_occurs_in_lower: "contains (lower w) (lower s) \<longleftrightarrow> ci_occurs_in w s"
proof -
  have "occurs_in (lower w) (lower s) \<longleftrightarrow> ci_occurs_in w s"
    unfolding occurs_in_def ci_occurs_in_def lower_def
  proof
    assume "\<exists>u v. map lower_char s = u @ map lower_char w @ v"
    then obtain u v where "map lower_char s = u @ map lower_char w @ v" by blast
    then have "\<exists>a r. s = a @ r \<and> map lower_char a = u \<and> map lower_char r = map lower_char w @ v"
      by (rule map_eq_append_split)
    then obtain a r where ar: "s = a @ r" "map lower_char r = map lower_char w @ v"
      by blast
    from ar(2) have "\<exists>b c. r = b @ c \<and> map lower_char b = map lower_char w \<and> map lower_char c = v"
      by (rule map_eq_append_split)
    then obtain b c where "r = b @ c" "map lower_char b = map lower_char w"
      by blast
    with ar have "s = a @ b @ c" "map lower_char b = map lower_char w" by simp_all
    then show "\<exists>u m v. s = u @ m @ v \<and> map lower_char m = map lower_char w" by blast
  next
    assume "\<exists>u m v. s = u @ m @ v \<and> map lower_char m = map lower_char w"
    then obtain u m v where "s = u @ m @ v" "map lower_char m = map lower_char w" by blast
    then have "map lower_char s = map lower_char u @ map lower_char w @ map lower_char v" by simp
    then show "\<exists>u v. map lower_char s = u @ map lower_char w @ v" by blast
  qed
  then show ?thesis by (simp add: contains_iff)
qed

lemma positive_words_lower: "w \<in> set positive_words \<Longrightarrow> lower w = w"
  by (auto simp: positive_words_def lower_def lower_char_def ascii_uppercase_def ascii_lowercase_def)

lemma negative_words_lower: "w \<in> set negative_words \<Longrightarrow> lower w = w"
  by (auto simp: negative_words_def lower_def lower_char_def ascii_uppercase_def ascii_lowercase_def)

lemma positive_count_eq:
  "sum_ones (\<lambda>word. contains word (lower text)) positive_words = positive_hits text"
proof -
  have "distinct positive_words" by (simp add: positive_words_def)
  moreover have "{w \<in> set positive_words. contains w (lower text)} = {w \<in> set positive_words. ci_occurs_in w text}"
  proof -
    have "contains w (lower text) \<longleftrightarrow> ci_occurs_in w text" if "w \<in> set positive_words" for w
      using positive_words_lower [OF that] ci_occurs_in_lower [of w "text"] by simp
    then show ?thesis by blast
  qed
  ultimately show ?thesis by (simp add: sum_ones_card positive_hits_def)
qed

lemma negative_count_eq:
  "sum_ones (\<lambda>word. contains word (lower text)) negative_words = negative_hits text"
proof -
  have "distinct negative_words" by (simp add: negative_words_def)
  moreover have "{w \<in> set negative_words. contains w (lower text)} = {w \<in> set negative_words. ci_occurs_in w text}"
  proof -
    have "contains w (lower text) \<longleftrightarrow> ci_occurs_in w text" if "w \<in> set negative_words" for w
      using negative_words_lower [OF that] ci_occurs_in_lower [of w "text"] by simp
    then show ?thesis by blast
  qed
  ultimately show ?thesis by (simp add: sum_ones_card negative_hits_def)
qed

lemma lower_char_idem: "lower_char (lower_char c) = lower_char c"
  by (simp add: lower_char_def ascii_uppercase_def ascii_lowercase_def)

lemma lower_idem: "lower (lower s) = lower s"
  by (simp add: lower_def lower_char_idem)

lemma occurs_in_ci: "occurs_in k s \<Longrightarrow> ci_occurs_in (lower k) s"
  unfolding occurs_in_def ci_occurs_in_def using lower_idem by metis

section \<open>The loop over the knowledge base\<close>

lemma total_score_entry_score:
  "total_score keywords (subject @ '' '' @ body) kb_keywords = entry_score keywords subject body (category, kb_keywords, solution, escalation)"
  by (simp add: total_score_def entry_score_def sum_ones_length ci_occurs_in_lower)

lemma first_best_snoc_keep:
  assumes "first_best score seen i" "score row \<le> score (seen ! i)"
  shows "first_best score (seen @ [row]) i"
  using assms by (auto simp: first_best_def nth_append less_Suc_eq)

lemma first_best_snoc_new:
  assumes "\<forall>j < length seen. score (seen ! j) < score row"
  shows "first_best score (seen @ [row]) (length seen)"
  using assms by (auto simp: first_best_def nth_append less_Suc_eq less_imp_le)

lemma loop_inv_step:
  assumes "loop_inv (entry_score keywords subject body) seen st"
  shows "loop_inv (entry_score keywords subject body) (seen @ [row])
           (consider_row keywords (subject @ '' '' @ body) st row)"
proof -
  obtain category kb_keywords solution escalation where row: "row = (category, kb_keywords, solution, escalation)"
    by (cases row) auto
  obtain best_match best_score where st: "st = (best_match, best_score)" by (cases st) auto
  let ?score = "entry_score keywords subject body"
  have ts: "total_score keywords (subject @ '' '' @ body) kb_keywords = ?score row"
    unfolding row by (rule total_score_entry_score)
  show ?thesis
  proof (cases "?score row > best_score")
    case True
    have "\<forall>j < length seen. ?score (seen ! j) < ?score row"
    proof (cases best_match)
      case None
      with assms st True show ?thesis by (auto simp: loop_inv_def)
    next
      case (Some m)
      with assms st obtain i where i: "first_best ?score seen i" "best_score = ?score (seen ! i)"
        by (auto simp: loop_inv_def)
      show ?thesis
      proof (intro allI impI)
        fix j assume "j < length seen"
        with i(1) have "?score (seen ! j) \<le> ?score (seen ! i)" by (simp add: first_best_def)
        with True i(2) show "?score (seen ! j) < ?score row" by simp
      qed
    qed
    then have "first_best ?score (seen @ [row]) (length seen)" by (rule first_best_snoc_new)
    moreover have "consider_row keywords (subject @ '' '' @ body) st row = (Some (solution, escalation), ?score row)"
      using True ts by (simp add: st row)
    moreover have "0 < ?score row" using True by simp
    ultimately show ?thesis by (auto simp: loop_inv_def row)
  next
    case False
    then have same: "consider_row keywords (subject @ '' '' @ body) st row = st"
      using ts by (simp add: st row)
    show ?thesis
    proof (cases best_match)
      case None
      with assms st False show ?thesis unfolding same by (auto simp: loop_inv_def)
    next
      case (Some m)
      with assms st obtain i where i: "first_best ?score seen i" "m = snd (snd (seen ! i))"
         "best_score = ?score (seen ! i)" "0 < best_score"
        by (auto simp: loop_inv_def)
      from i(1,3) False have "first_best ?score (seen @ [row]) i"
        by (intro first_best_snoc_keep) auto
      moreover from i(1) have "(seen @ [row]) ! i = seen ! i" by (simp add: first_best_def nth_append)
      ultimately show ?thesis unfolding same using i Some st by (auto simp: loop_inv_def)
    qed
  qed
qed

lemma loop_inv_foldl:
  "loop_inv (entry_score keywords subject body) kb
     (foldl (consider_row keywords (subject @ '' '' @ body)) (None, 0) kb)"
proof (induction kb rule: rev_induct)
  case Nil
  then show ?case by (simp add: loop_inv_def)
next
  case (snoc row kb)
  from loop_inv_step [OF snoc.IH] show ?case by (simp only: foldl_append foldl.simps)
qed

lemma entry_score_total_score:
  "entry_score keywords subject body row = total_score keywords (subject @ '' '' @ body) (fst (snd row))"
  by (cases row) (simp add: total_score_entry_score [symmetric])

lemma filter_single:
  assumes "distinct xs" "k \<in> set xs" "P k" "\<forall>x \<in> set xs. x \<noteq> k \<longrightarrow> \<not> P x"
  shows "length (filter P xs) = 1"
proof -
  from assms have "{x \<in> set xs. P x} = {k}" by blast
  with assms(1) show ?thesis by (simp add: distinct_length_filter Int_def conj_commute)
qed

section \<open>Templates and tickets\<close>

lemma key_split:
  assumes "c \<notin> set u" "c \<notin> set v"
  shows "p @ c # s = u @ c # v \<longleftrightarrow> p = u \<and> s = v"
proof
  assume eq: "p @ c # s = u @ c # v"
  then consider w where "p = u @ w" "w @ c # s = c # v" | w where "p @ w = u" "c # s = w @ c # v"
    by (auto simp: append_eq_append_conv2)
  then show "p = u \<and> s = v"
  proof cases
    case 1
    show ?thesis
    proof (cases w)
      case Nil
      with 1 show ?thesis by simp
    next
      case (Cons x w')
      with 1 have "v = w' @ c # s" by simp
      with assms show ?thesis by simp
    qed
  next
    case 2
    show ?thesis
    proof (cases w)
      case Nil
      with 2 show ?thesis by simp
    next
      case (Cons x w')
      with 2 have "u = p @ c # w'" by auto
      with assms show ?thesis by simp
    qed
  qed
qed simp

lemma key_eq:
  "p @ ''_'' @ s = ''urgent_negative'' \<longleftrightarrow> p = ''urgent'' \<and> s = ''negative''"
  "p @ ''_'' @ s = ''normal_positive'' \<longleftrightarrow> p = ''normal'' \<and> s = ''positive''"
  "p @ ''_'' @ s = ''normal_neutral'' \<longleftrightarrow> p = ''normal'' \<and> s = ''neutral''"
  "p @ ''_'' @ s = ''urgent_neutral'' \<longleftrightarrow> p = ''urgent'' \<and> s = ''neutral''"
  using key_split [of "CHR ''_''" "''urgent''" "''negative''" p s]
    key_split [of "CHR ''_''" "''normal''" "''positive''" p s]
    key_split [of "CHR ''_''" "''normal''" "''neutral''" p s]
    key_split [of "CHR ''_''" "''urgent''" "''neutral''" p s]
  by simp_all

lemma join_prepend: "chunks \<noteq> [] \<Longrightarrow> v @ join t chunks = join t ((v @ hd chunks) # tl chunks)"
proof -
  assume "chunks \<noteq> []"
  then obtain x xs where c: "chunks = x # xs" by (cases chunks) auto
  show ?thesis by (cases xs) (simp_all add: c)
qed

lemma join_hole: "chunks \<noteq> [] \<Longrightarrow> t @ join t chunks = join t ([] # chunks)"
  by (cases chunks) auto

lemma shape_error: "ticket_shape (\<lambda>t. Inl e)"
  by (auto simp: ticket_shape_def)

lemma shape_text: "ticket_shape (\<lambda>t. Inr s)"
proof -
  have "[s] \<noteq> [] \<and> (\<forall>t. (Inr s :: error + string) = Inr (join t [s]))" by simp
  then show ?thesis unfolding ticket_shape_def by blast
qed

lemma shape_prepend:
  assumes "ticket_shape f"
  shows "ticket_shape (\<lambda>t. and_then (f t) (\<lambda>r. Inr (v @ r)))"
  using assms unfolding ticket_shape_def
proof (elim disjE exE conjE)
  fix e assume "\<forall>t. f t = Inl e"
  then have "\<forall>t. and_then (f t) (\<lambda>r. Inr (v @ r)) = Inl e" by (simp add: and_then_def)
  then show "(\<exists>e. \<forall>t. and_then (f t) (\<lambda>r. Inr (v @ r)) = Inl e) \<or>
    (\<exists>chunks. chunks \<noteq> [] \<and> (\<forall>t. and_then (f t) (\<lambda>r. Inr (v @ r)) = Inr (join t chunks)))" by blast
next
  fix chunks assume c: "chunks \<noteq> []" "\<forall>t. f t = Inr (join t chunks)"
  then have "\<forall>t. and_then (f t) (\<lambda>r. Inr (v @ r)) = Inr (join t ((v @ hd chunks) # tl chunks))"
    by (simp add: and_then_def join_prepend)
  then have "(v @ hd chunks) # tl chunks \<noteq> [] \<and>
     (\<forall>t. and_then (f t) (\<lambda>r. Inr (v @ r)) = Inr (join t ((v @ hd chunks) # tl chunks)))" by simp
  then show "(\<exists>e. \<forall>t. and_then (f t) (\<lambda>r. Inr (v @ r)) = Inl e) \<or>
    (\<exists>chunks. chunks \<noteq> [] \<and> (\<forall>t. and_then (f t) (\<lambda>r. Inr (v @ r)) = Inr (join t chunks)))" by blast
qed

lemma shape_hole:
  assumes "ticket_shape f"
  shows "ticket_shape (\<lambda>t. and_then (f t) (\<lambda>r. Inr (t @ r)))"
  using assms unfolding ticket_shape_def
proof (elim disjE exE conjE)
  fix e assume "\<forall>t. f t = Inl e"
  then have "\<forall>t. and_then (f t) (\<lambda>r. Inr (t @ r)) = Inl e" by (simp add: and_then_def)
  then show "(\<exists>e. \<forall>t. and_then (f t) (\<lambda>r. Inr (t @ r)) = Inl e) \<or>
    (\<exists>chunks. chunks \<noteq> [] \<and> (\<forall>t. and_then (f t) (\<lambda>r. Inr (t @ r)) = Inr (join t chunks)))" by blast
next
  fix chunks assume c: "chunks \<noteq> []" "\<forall>t. f t = Inr (join t chunks)"
  then have "\<forall>t. and_then (f t) (\<lambda>r. Inr (t @ r)) = Inr (join t ([] # chunks))"
    by (simp add: and_then_def join_hole)
  then have "[] # chunks \<noteq> [] \<and>
     (\<forall>t. and_then (f t) (\<lambda>r. Inr (t @ r)) = Inr (join t ([] # chunks)))" by simp
  then show "(\<exists>e. \<forall>t. and_then (f t) (\<lambda>r. Inr (t @ r)) = Inl e) \<or>
    (\<exists>chunks. chunks \<noteq> [] \<and> (\<forall>t. and_then (f t) (\<lambda>r. Inr (t @ r)) = Inr (join t chunks)))" by blast
qed

lemma shape_cons: "ticket_shape f \<Longrightarrow> ticket_shape (\<lambda>t. and_then (f t) (\<lambda>r. Inr (x # r)))"
  using shape_prepend [of f "[x]"] by simp

lemma format_from_shape: "ticket_shape (\<lambda>t. format_from (fields a b c t) mode tmpl)"
proof (induction "length tmpl" arbitrary: tmpl mode rule: less_induct)
  case less
  show ?case
  proof (cases tmpl)
    case Nil
    then show ?thesis by (cases mode) (simp_all add: shape_error shape_text)
  next
    case (Cons x xs)
    note IH = less [of xs, simplified Cons, simplified]
    show ?thesis
    proof (cases mode)
      case None
      consider (open_end) "x = CHR ''{''" "xs = []"
        | (open_esc) ys where "x = CHR ''{''" "xs = CHR ''{'' # ys"
        | (open_field) y ys where "x = CHR ''{''" "xs = y # ys" "y \<noteq> CHR ''{''"
        | (close_end) "x \<noteq> CHR ''{''" "x = CHR ''}''" "xs = []"
        | (close_esc) ys where "x \<noteq> CHR ''{''" "x = CHR ''}''" "xs = CHR ''}'' # ys"
        | (close_bad) y ys where "x \<noteq> CHR ''{''" "x = CHR ''}''" "xs = y # ys" "y \<noteq> CHR ''}''"
        | (plain) "x \<noteq> CHR ''{''" "x \<noteq> CHR ''}''"
        by (cases xs) auto
      then show ?thesis
      proof cases
        case open_end
        then show ?thesis by (simp add: Cons None shape_error)
      next
        case open_esc
        have "ticket_shape (\<lambda>t. format_from (fields a b c t) None ys)"
          by (rule less) (simp add: Cons open_esc)
        then show ?thesis by (simp add: Cons None open_esc shape_cons)
      next
        case open_field
        with IH [of "Some []"] show ?thesis by (simp add: Cons None)
      next
        case close_end
        then show ?thesis by (simp add: Cons None shape_error)
      next
        case close_esc
        have "ticket_shape (\<lambda>t. format_from (fields a b c t) None ys)"
          by (rule less) (simp add: Cons close_esc)
        then show ?thesis by (simp add: Cons None close_esc shape_cons)
      next
        case close_bad
        then show ?thesis by (simp add: Cons None shape_error)
      next
        case plain
        with IH [of None] show ?thesis by (simp add: Cons None shape_cons)
      qed
    next
      case (Some name)
      show ?thesis
      proof (cases "x = CHR ''}''")
        case True
        have rest: "ticket_shape (\<lambda>t. format_from (fields a b c t) None xs)"
          using IH [of None] .
        have step: "format_from (fields a b c t) (Some name) (x # xs) =
              (case map_of (fields a b c t) name of
                 None \<Rightarrow> Inl KeyError
               | Some v \<Rightarrow> and_then (format_from (fields a b c t) None xs) (\<lambda>r. Inr (v @ r)))" for t
          using True by simp
        have look: "map_of (fields a b c t) name =
              (if name = ''sender_name'' then Some a else if name = ''solution'' then Some b
               else if name = ''ticket_id'' then Some t
               else if name = ''additional_info'' then Some c else None)" for t
          by (simp add: fields_def)
        consider (ticket) "name = ''ticket_id''"
          | (fixed) v where "name \<noteq> ''ticket_id''" "\<forall>t. map_of (fields a b c t) name = Some v"
          | (unknown) "name \<noteq> ''ticket_id''" "\<forall>t. map_of (fields a b c t) name = None"
          unfolding look by (cases "name = ''sender_name''"; cases "name = ''solution''";
              cases "name = ''ticket_id''"; cases "name = ''additional_info''") auto
        then show ?thesis
        proof cases
          case ticket
          then have "map_of (fields a b c t) name = Some t" for t by (simp add: fields_def)
          with shape_hole [OF rest] show ?thesis by (simp add: Cons Some step del: format_from.simps)
        next
          case fixed
          with shape_prepend [OF rest, of v] show ?thesis
            by (simp add: Cons Some step del: format_from.simps)
        next
          case unknown
          then show ?thesis by (simp add: Cons Some step shape_error del: format_from.simps)
        qed
      next
        case False
        with IH [of "Some (name @ [x])"] show ?thesis by (simp add: Cons Some)
      qed
    qed
  qed
qed


lemma shape_bind:
  assumes "\<And>x. ticket_shape (\<lambda>t. F x t)"
  shows "ticket_shape (\<lambda>t. and_then m (\<lambda>x. F x t))"
  using assms by (cases m) (simp_all add: and_then_def shape_error)

lemma shape_bind_pair:
  assumes "\<And>x y. ticket_shape (\<lambda>t. F x y t)"
  shows "ticket_shape (\<lambda>t. and_then m (\<lambda>(x, y). F x y t))"
proof (cases m)
  case (Inl e)
  then show ?thesis by (simp add: and_then_def shape_error)
next
  case (Inr p)
  obtain x y where "p = (x, y)" by (cases p) auto
  with Inr assms [of x y] show ?thesis by (simp add: and_then_def)
qed

lemma try_block_shape:
  "\<exists>f. ticket_shape f \<and> (\<forall>now. try_block kb_entries now d sender_name = f (''SUP'' @ now))"
proof -
  let ?f = "\<lambda>t.
     and_then (getitem d ''sentiment'') (\<lambda>sentiment.
     and_then (getitem d ''priority'') (\<lambda>priority.
     and_then (keywords_of d) (\<lambda>keywords.
     and_then (solution_for kb_entries keywords d) (\<lambda>(solution, escalation).
     and_then (select_template priority sentiment) (\<lambda>template.
     and_then (additional_info_of d priority escalation) (\<lambda>additional_info.
       format_from (fields sender_name solution additional_info t) None template))))))"
  have "ticket_shape ?f"
    by (intro shape_bind shape_bind_pair format_from_shape)
  moreover have "try_block kb_entries now d sender_name = ?f (''SUP'' @ now)" for now
    by (simp add: try_block_def Let_def format_template_def fields_def)
  ultimately show ?thesis by blast
qed

lemma generate_ai_response_shape:
  "(\<exists>e. \<forall>now. generate_ai_response kb_entries now d = Inl e)
   \<or> (\<exists>chunks. chunks \<noteq> [] \<and>
         (\<forall>now. generate_ai_response kb_entries now d = Inr (join (''SUP'' @ now) chunks)))"
proof (cases "sender_name_of d")
  case (Inl e)
  then have "\<forall>now. generate_ai_response kb_entries now d = Inl UnboundLocalError"
    by (simp add: generate_ai_response_def)
  then show ?thesis by blast
next
  case (Inr sender_name)
  obtain f where f: "ticket_shape f" "\<forall>now. try_block kb_entries now d sender_name = f (''SUP'' @ now)"
    using try_block_shape by blast
  from f(1) consider e where "\<forall>t. f t = Inl e"
    | chunks where "chunks \<noteq> []" "\<forall>t. f t = Inr (join t chunks)"
    unfolding ticket_shape_def by blast
  then show ?thesis
  proof cases
    case 1
    with f(2) Inr have "\<forall>now. generate_ai_response kb_entries now d
                          = Inr (join (''SUP'' @ now) [acknowledgment sender_name])"
      by (simp add: generate_ai_response_def)
    then have "[acknowledgment sender_name] \<noteq> [] \<and> (\<forall>now. generate_ai_response kb_entries now d
                          = Inr (join (''SUP'' @ now) [acknowledgment sender_name]))" by simp
    then show ?thesis by blast
  next
    case 2
    with f(2) Inr have "\<forall>now. generate_ai_response kb_entries now d = Inr (join (''SUP'' @ now) chunks)"
      by (simp add: generate_ai_response_def)
    with 2(1) show ?thesis by blast
  qed
qed

lemma regenerate_response_cases:
  "regenerate_response db now email_id =
     (case emails db email_id of
        None \<Rightarrow> (db, NotFound)
      | Some row \<Rightarrow>
          (case generate_ai_response (knowledge_base db) now (stored_fields row) of
             Inl e \<Rightarrow> (db, ServerError e)
           | Inr new_response \<Rightarrow>
               (db\<lparr>emails := (emails db)(email_id \<mapsto> row\<lparr>col_ai_response := PStr new_response\<rparr>)\<rparr>,
                Regenerated new_response)))"
  by (cases "emails db email_id") (simp_all add: regenerate_response_def stored_fields_def Let_def)

lemma split_from_nonempty: "split_from sep cur s \<noteq> []"
  by (induction sep cur s rule: split_from.induct) auto

lemma generate_ai_response_returns_with_sender:
  assumes "d ''sender'' = Some (PStr s)"
  shows "\<exists>response. generate_ai_response kb_entries now d = Inr response"
proof -
  obtain local rest where "split s ''@'' = local # rest"
    using split_from_nonempty [of "''@''" "[]" s] by (cases "split s ''@''") (auto simp: Spec2Isabelle.split_def)
  with assms have "\<exists>name. sender_name_of d = Inr name"
    by (simp add: sender_name_of_def getitem_def and_then_def)
  then show ?thesis
    by (auto simp: generate_ai_response_def split: sum.splits)
qed

section \<open>Matches and their groups\<close>

lemma findall_from_empty: "findall_from ic r pre suf = [] \<longleftrightarrow> search_from ic r pre suf = None"
  by (subst findall_from.simps) (simp split: option.splits prod.splits)

lemma findall_from_none: "findall_from ic r [] txt = [] \<longleftrightarrow> \<not> re_search ic r txt"
  unfolding re_search_def findall_from_empty by blast

lemma search_from_member:
  "search_from ic r pre suf = Some m \<Longrightarrow> \<exists>pre0 suf0. m \<in> set (ms ic r (pre0, suf0, []))"
proof (induction suf arbitrary: pre)
  case Nil
  then have "m \<in> set (ms ic r (pre, [], []))" by (auto split: list.splits)
  then show ?case by blast
next
  case (Cons c cs)
  show ?case
  proof (cases "ms ic r (pre, c # cs, [])")
    case Nil
    with Cons.prems have "search_from ic r (c # pre) cs = Some m" by simp
    then show ?thesis by (rule Cons.IH)
  next
    case (Cons m' list)
    with Cons.prems have "m \<in> set (ms ic r (pre, c # cs, []))" by simp
    then show ?thesis by blast
  qed
qed

lemma findall_from_member:
  "caps \<in> set (findall_from ic r pre suf) \<Longrightarrow>
     \<exists>pre0 suf0 pre' suf'. (pre', suf', caps) \<in> set (ms ic r (pre0, suf0, []))"
proof (induction ic r pre suf rule: findall_from.induct)
  case (1 ic r pre suf)
  show ?case
  proof (cases "search_from ic r pre suf")
    case None
    with "1.prems" show ?thesis by (subst (asm) findall_from.simps) simp
  next
    case (Some m)
    obtain pre' suf' caps' where m: "m = (pre', suf', caps')" by (cases m) auto
    let ?n = "length suf - length suf'"
    from "1.prems" Some m consider (here) "caps = caps'"
      | (later) "0 < ?n" "caps \<in> set (findall_from ic r (rev (take ?n suf) @ pre) (drop ?n suf))"
      | (step) c cs where "\<not> 0 < ?n" "suf = c # cs" "caps \<in> set (findall_from ic r (c # pre) cs)"
      by (subst (asm) findall_from.simps) (auto simp: Let_def split: if_splits list.splits)
    then show ?thesis
    proof cases
      case here
      with search_from_member [OF Some] m show ?thesis by blast
    next
      case later
      from "1.IH"(1) [OF Some m [symmetric] refl refl later(1) later(2)] show ?thesis .
    next
      case step
      from "1.IH"(2) [OF Some m [symmetric] refl refl step(1) step(2) step(3)] show ?thesis .
    qed
  qed
qed


lemma str_ok_take:
  "str_ok True w suf \<Longrightarrow> length w \<le> length suf \<and> lower (take (length w) suf) = lower w"
  by (induction True w suf rule: str_ok.induct) (auto simp: lower_def)

lemma ms_alts:
  assumes "(pre', suf', caps') \<in> set (ms ic (alts ws) (pre, suf, caps))" "ws \<noteq> []"
  shows "\<exists>w \<in> set ws. str_ok ic w suf \<and> pre' = rev (take (length w) suf) @ pre
            \<and> suf' = drop (length w) suf \<and> caps' = caps"
  using assms
proof (induction ws rule: alts.induct)
  case 1
  then show ?case by simp
next
  case (2 w)
  then show ?case by (auto split: if_splits)
next
  case (3 w v ws)
  from "3.prems"(1) consider "(pre', suf', caps') \<in> set (ms ic (Str w) (pre, suf, caps))"
    | "(pre', suf', caps') \<in> set (ms ic (alts (v # ws)) (pre, suf, caps))"
    by auto
  then show ?case
  proof cases
    case 1
    then show ?thesis by (auto split: if_splits)
  next
    case 2
    with "3.IH" show ?thesis by auto
  qed
qed

lemma ms_caps_extend:
  "(pre', suf', caps') \<in> set (ms ic r (pre, suf, caps)) \<Longrightarrow>
     \<exists>new. caps' = new @ caps \<and> fst ` set new \<subseteq> groups_of r"
proof (induction r arbitrary: pre suf caps pre' suf' caps')
  case (One a)
  then show ?case by (auto split: list.splits if_splits)
next
  case (Str w)
  then show ?case by (auto split: if_splits)
next
  case (Rep a lo hi)
  then show ?case by (auto simp: Let_def)
next
  case (Cat r1 r2)
  from Cat.prems obtain st1 where st1: "st1 \<in> set (ms ic r1 (pre, suf, caps))"
    and fin: "(pre', suf', caps') \<in> set (ms ic r2 st1)" by auto
  obtain pre1 suf1 caps1 where st1_eq: "st1 = (pre1, suf1, caps1)" by (cases st1) auto
  from Cat.IH(1) [OF st1 [unfolded st1_eq]] obtain new1 where
    n1: "caps1 = new1 @ caps" "fst ` set new1 \<subseteq> groups_of r1" by blast
  from Cat.IH(2) [OF fin [unfolded st1_eq]] obtain new2 where
    n2: "caps' = new2 @ caps1" "fst ` set new2 \<subseteq> groups_of r2" by blast
  from n1 n2 have "caps' = (new2 @ new1) @ caps \<and> fst ` set (new2 @ new1) \<subseteq> groups_of (Cat r1 r2)"
    by auto
  then show ?case by blast
next
  case (Alt r1 r2)
  from Alt.prems consider "(pre', suf', caps') \<in> set (ms ic r1 (pre, suf, caps))"
    | "(pre', suf', caps') \<in> set (ms ic r2 (pre, suf, caps))" by auto
  then show ?case
  proof cases
    case 1
    from Alt.IH(1) [OF 1] show ?thesis by auto
  next
    case 2
    from Alt.IH(2) [OF 2] show ?thesis by auto
  qed
next
  case (Grp n r)
  from Grp.prems obtain caps1 where inner: "(pre', suf', caps1) \<in> set (ms ic r (pre, suf, caps))"
    and c: "caps' = (n, rev (take (length pre' - length pre) pre')) # caps1" by auto
  from Grp.IH [OF inner] obtain new where "caps1 = new @ caps" "fst ` set new \<subseteq> groups_of r" by blast
  with c have "caps' = ((n, rev (take (length pre' - length pre) pre')) # new) @ caps
      \<and> fst ` set ((n, rev (take (length pre' - length pre) pre')) # new) \<subseteq> groups_of (Grp n r)"
    by auto
  then show ?case by blast
next
  case WordB
  then show ?case by (auto split: if_splits)
qed

lemma ms_keeps_group:
  assumes "(pre', suf', caps') \<in> set (ms ic r (pre, suf, caps))" "n \<notin> groups_of r"
  shows "map_of caps' n = map_of caps n"
proof -
  from ms_caps_extend [OF assms(1)] obtain new where
    new: "caps' = new @ caps" "fst ` set new \<subseteq> groups_of r" by blast
  with assms(2) have "n \<notin> fst ` set new" by blast
  then have "map_of new n = None" by (simp add: map_of_eq_None_iff)
  with new(1) show ?thesis by (simp add: map_add_def)
qed

lemma ms_Cat_member:
  "x \<in> set (ms ic (Cat r1 r2) st) \<longleftrightarrow> (\<exists>st1 \<in> set (ms ic r1 st). x \<in> set (ms ic r2 st1))"
  by simp

lemma ms_Grp_member:
  "(pre', suf', caps') \<in> set (ms ic (Grp n r) (pre, suf, caps)) \<longleftrightarrow>
     (\<exists>caps1. (pre', suf', caps1) \<in> set (ms ic r (pre, suf, caps))
        \<and> caps' = (n, rev (take (length pre' - length pre) pre')) # caps1)"
  by (force simp: image_iff)

lemma ms_requirement_pattern:
  assumes "(pre', suf', caps') \<in> set (ms True (requirement_pattern ws) (pre, suf, []))" "ws \<noteq> []"
  shows "\<exists>w \<in> set ws. lower (group 1 caps') = lower w"
proof -
  let ?tail = "Cat (One (Lit CHR '' '')) (Grp 2 (Rep (NSet [Ch CHR ''.'', Ch CHR ''!'', Ch CHR ''?'']) 0 None))"
  from assms(1) have "\<exists>st1 \<in> set (ms True (Grp 1 (alts ws)) (pre, suf, [])).
      (pre', suf', caps') \<in> set (ms True ?tail st1)"
    unfolding requirement_pattern_def by (simp only: ms_Cat_member)
  then obtain st1 where st1: "st1 \<in> set (ms True (Grp 1 (alts ws)) (pre, suf, []))"
    and fin: "(pre', suf', caps') \<in> set (ms True ?tail st1)"
    by blast
  obtain pre1 suf1 caps0 where st1_eq: "st1 = (pre1, suf1, caps0)" by (cases st1) auto
  from st1 [unfolded st1_eq ms_Grp_member] obtain caps1 where
    a: "(pre1, suf1, caps1) \<in> set (ms True (alts ws) (pre, suf, []))"
    and caps0: "caps0 = (1, rev (take (length pre1 - length pre) pre1)) # caps1"
    by blast
  from ms_alts [OF a assms(2)] obtain w where w: "w \<in> set ws" "str_ok True w suf"
    "pre1 = rev (take (length w) suf) @ pre" by auto
  from str_ok_take [OF w(2)] have len: "length w \<le> length suf"
    and low: "lower (take (length w) suf) = lower w" by simp_all
  from w(3) len have g1: "rev (take (length pre1 - length pre) pre1) = take (length w) suf"
    by simp
  have "1 \<notin> groups_of ?tail" by simp
  from ms_keeps_group [OF fin [unfolded st1_eq caps0] this]
  have "map_of caps' 1 = Some (take (length w) suf)"
    unfolding g1 by simp
  then have "group 1 caps' = take (length w) suf" by (simp add: group_def)
  with low w(1) show ?thesis by auto
qed


lemma findall2_group1:
  assumes "(a, b) \<in> set (findall2 True (requirement_pattern ws) txt)" "ws \<noteq> []"
  shows "\<exists>w \<in> set ws. lower a = lower w"
proof -
  from assms(1) obtain caps where caps: "caps \<in> set (findall_from True (requirement_pattern ws) [] txt)"
    and a: "a = group 1 caps" by (auto simp: findall2_def)
  from findall_from_member [OF caps] ms_requirement_pattern [OF _ assms(2)] a
  show ?thesis by blast
qed

lemma trigger_initial:
  assumes "ws \<in> set requirement_triggers" "w \<in> set ws"
  shows "w \<noteq> [] \<and> lower_char (hd w) \<in> set trigger_initials"
  using assms
  by (auto simp: requirement_triggers_def trigger_initials_def lower_char_def
      ascii_uppercase_def ascii_lowercase_def)

lemma initial_not_space:
  "lower_char c \<in> set trigger_initials \<Longrightarrow> \<not> is_space c"
  by (auto simp: trigger_initials_def is_space_def lower_char_def ascii_uppercase_def ascii_lowercase_def)

lemma strip_keeps_head:
  assumes "\<not> is_space c"
  shows "\<exists>t. strip (c # s) = c # t"
proof -
  have left: "dropWhile is_space (c # s) = c # s" using assms by simp
  have "\<exists>t. rev (dropWhile is_space (rev s @ [c])) = c # t"
  proof (cases "\<forall>x \<in> set (rev s). is_space x")
    case True
    then have "dropWhile is_space (rev s @ [c]) = [c]" using assms by (simp add: dropWhile_append)
    then show ?thesis by simp
  next
    case False
    then have "dropWhile is_space (rev s @ [c]) = dropWhile is_space (rev s) @ [c]"
      by (simp add: dropWhile_append)
    then show ?thesis by simp
  qed
  then show ?thesis unfolding strip_def left by simp
qed

lemma requirement_head:
  assumes "r \<in> set (pattern_requirements p txt)" "p \<in> set requirement_patterns"
  shows "r \<noteq> [] \<and> lower_char (hd r) \<in> set trigger_initials"
proof -
  from assms(2) obtain ws where ws: "ws \<in> set requirement_triggers" "p = requirement_pattern ws"
    by (auto simp: requirement_patterns_def)
  then have ne: "ws \<noteq> []" by (auto simp: requirement_triggers_def)
  from assms(1) obtain a b where ab: "(a, b) \<in> set (findall2 True p txt)" "r = strip (join '' '' [a, b])"
    by (auto simp: pattern_requirements_def dest: in_set_takeD)
  from findall2_group1 [OF ab(1) [unfolded ws(2)] ne] obtain w where w: "w \<in> set ws" "lower a = lower w"
    by blast
  from trigger_initial [OF ws(1) w(1)] have w_ne: "w \<noteq> []" and ini: "lower_char (hd w) \<in> set trigger_initials"
    by simp_all
  from w(2) w_ne obtain c a' where a: "a = c # a'" by (cases a) (auto simp: lower_def)
  obtain d w' where wd: "w = d # w'" using w_ne by (cases w) auto
  from w(2) a wd have "lower_char c = lower_char d" by (simp add: lower_def)
  with ini wd have c_ini: "lower_char c \<in> set trigger_initials" by simp
  then have "\<not> is_space c" by (rule initial_not_space)
  from strip_keeps_head [OF this, of "a' @ '' '' @ b"] obtain t where "r = c # t"
    using ab(2) a by auto
  with c_ini show ?thesis by simp
qed

lemma join_head: "x \<noteq> [] \<Longrightarrow> join sep (x # xs) \<noteq> [] \<and> hd (join sep (x # xs)) = hd x"
  by (cases xs) auto

lemma requirements_not_sentinel:
  assumes "rs \<noteq> []" "\<forall>r \<in> set rs. r \<noteq> [] \<and> lower_char (hd r) \<in> set trigger_initials"
  shows "join ''; '' rs \<noteq> general_inquiry"
proof
  assume eq: "join ''; '' rs = general_inquiry"
  from assms(1) obtain r rest where rs: "rs = r # rest" by (cases rs) auto
  with assms(2) have r: "r \<noteq> []" "lower_char (hd r) \<in> set trigger_initials" by simp_all
  from join_head [OF r(1), of "''; ''" rest] eq rs have "hd r = CHR ''G''"
    by (simp add: general_inquiry_def)
  with r(2) show False
    by (simp add: trigger_initials_def lower_char_def ascii_uppercase_def ascii_lowercase_def)
qed

lemma contact_not_sentinel:
  assumes "parts \<noteq> []" "\<forall>x \<in> set parts. x \<noteq> [] \<and> hd x \<in> set ''PAS''"
  shows "join ''; '' parts \<noteq> no_contact_info"
proof
  assume eq: "join ''; '' parts = no_contact_info"
  from assms(1) obtain x rest where p: "parts = x # rest" by (cases parts) auto
  with assms(2) have x: "x \<noteq> []" "hd x \<in> set ''PAS''" by simp_all
  from join_head [OF x(1), of "''; ''" rest] eq p have "hd x = CHR ''N''"
    by (simp add: no_contact_info_def)
  with x(2) show False by simp
qed

section \<open>Collected keywords\<close>

lemma first_seen_from_set: "set (first_seen_from seen xs) = set xs - set seen"
  by (induction xs arbitrary: seen) auto

lemma first_seen_from_distinct: "distinct (first_seen_from seen xs)"
  by (induction xs arbitrary: seen) (auto simp: first_seen_from_set)

lemma dedupe_first_seen_admissible:
  "distinct (dedupe_first_seen xs) \<and> set (dedupe_first_seen xs) = set xs"
  by (simp add: dedupe_first_seen_def first_seen_from_set first_seen_from_distinct)

lemma ms_WordB_member:
  "x \<in> set (ms ic WordB (pre, suf, caps)) \<longleftrightarrow> at_boundary pre suf \<and> x = (pre, suf, caps)"
  by auto

lemma ms_tech_pattern:
  assumes "(pre', suf', caps') \<in> set (ms True (tech_pattern ws) (pre, suf, []))" "ws \<noteq> []"
  shows "\<exists>w \<in> set ws. lower (group 1 caps') = lower w"
proof -
  from assms(1) have "\<exists>st1 \<in> set (ms True WordB (pre, suf, [])).
      \<exists>st2 \<in> set (ms True (Grp 1 (alts ws)) st1). (pre', suf', caps') \<in> set (ms True WordB st2)"
    unfolding tech_pattern_def by (simp only: ms_Cat_member)
  then obtain st2 where st2: "st2 \<in> set (ms True (Grp 1 (alts ws)) (pre, suf, []))"
    and fin: "(pre', suf', caps') \<in> set (ms True WordB st2)"
    by (auto simp only: ms_WordB_member)
  obtain pre1 suf1 caps0 where st2_eq: "st2 = (pre1, suf1, caps0)" by (cases st2) auto
  from fin [unfolded st2_eq ms_WordB_member] have same: "caps' = caps0" by simp
  from st2 [unfolded st2_eq ms_Grp_member] obtain caps1 where
    a: "(pre1, suf1, caps1) \<in> set (ms True (alts ws) (pre, suf, []))"
    and caps0: "caps0 = (1, rev (take (length pre1 - length pre) pre1)) # caps1"
    by blast
  from ms_alts [OF a assms(2)] obtain w where w: "w \<in> set ws" "str_ok True w suf"
    "pre1 = rev (take (length w) suf) @ pre" by auto
  from str_ok_take [OF w(2)] have len: "length w \<le> length suf"
    and low: "lower (take (length w) suf) = lower w" by simp_all
  from w(3) len have "rev (take (length pre1 - length pre) pre1) = take (length w) suf"
    by simp
  with same caps0 have "group 1 caps' = take (length w) suf" by (simp add: group_def)
  with low w(1) show ?thesis by auto
qed

lemma tech_words_lower: "ws \<in> set tech_words \<Longrightarrow> w \<in> set ws \<Longrightarrow> lower w = w"
  by (auto simp: tech_words_def lower_def lower_char_def ascii_uppercase_def ascii_lowercase_def)

lemma collect_keywords_member:
  assumes "k \<in> set (collect_keywords txt)"
  shows "(\<exists>w \<in> set (concat tech_words). lower k = w)
         \<or> (k \<in> set urgent_keywords \<and> occurs_in k (lower txt))"
proof -
  from assms consider ws where "ws \<in> set tech_words" "k \<in> set (findall1 True (tech_pattern ws) txt)"
    | "k \<in> set urgent_keywords" "contains k (lower txt)"
    by (auto simp: collect_keywords_def tech_patterns_def)
  then show ?thesis
  proof cases
    case 1
    then have ne: "ws \<noteq> []" by (auto simp: tech_words_def)
    from 1(2) obtain caps where caps: "caps \<in> set (findall_from True (tech_pattern ws) [] txt)"
      and k: "k = group 1 caps" by (auto simp: findall1_def)
    from findall_from_member [OF caps] ms_tech_pattern [OF _ ne] k
    obtain w where "w \<in> set ws" "lower k = lower w" by blast
    with tech_words_lower [OF 1(1)] 1(1) show ?thesis by auto
  next
    case 2
    then show ?thesis by (simp add: contains_iff)
  qed
qed

section \<open>Sentinels\<close>

lemma sentinels_core:
  "(extract_contact_info txt = no_contact_info \<longleftrightarrow>
      \<not> re_search False phone_pattern txt \<and> \<not> re_search False email_pattern txt
      \<and> \<not> re_search True social_pattern txt)
   \<and> (extract_requirements subject body = general_inquiry \<longleftrightarrow>
        (\<forall>p \<in> set requirement_patterns. pattern_requirements p (subject @ '' '' @ body) = []))
   \<and> (extract_requirements subject body \<noteq> general_inquiry \<longrightarrow>
        extract_requirements subject body =
          join ''; '' (concat (map (\<lambda>p. pattern_requirements p (subject @ '' '' @ body)) requirement_patterns)))
   \<and> (\<forall>p. length (pattern_requirements p txt) \<le> 3
          \<and> (\<forall>r \<in> set (pattern_requirements p txt).
                10 < length r \<and> (\<exists>(a, b) \<in> set (take 3 (findall2 True p txt)). r = strip (a @ '' '' @ b))))"
proof (intro conjI allI)
  let ?phones = "findall1 False phone_pattern txt"
  let ?emails = "map (group 0) (findall_from False email_pattern [] txt)"
  let ?social = "findall1 True social_pattern txt"
  let ?parts = "(case ?phones of [] \<Rightarrow> [] | p # _ \<Rightarrow> [''Phone: '' @ p])
            @ (case ?emails of [] \<Rightarrow> [] | e # _ \<Rightarrow> [''Alt Email: '' @ e])
            @ (case ?social of [] \<Rightarrow> [] | s # _ \<Rightarrow> [''Social: '' @ s])"
  have res: "extract_contact_info txt = (if ?parts \<noteq> [] then join ''; '' ?parts else no_contact_info)"
    by (simp add: extract_contact_info_def Let_def)
  have heads: "\<forall>x \<in> set ?parts. x \<noteq> [] \<and> hd x \<in> set ''PAS''"
    by (auto split: list.splits)
  have empty: "?parts = [] \<longleftrightarrow> ?phones = [] \<and> ?emails = [] \<and> ?social = []"
    by (auto split: list.splits)
  have found: "?phones = [] \<longleftrightarrow> \<not> re_search False phone_pattern txt"
    "?emails = [] \<longleftrightarrow> \<not> re_search False email_pattern txt"
    "?social = [] \<longleftrightarrow> \<not> re_search True social_pattern txt"
    by (simp_all only: findall1_def map_is_Nil_conv findall_from_none)
  show "extract_contact_info txt = no_contact_info \<longleftrightarrow>
      \<not> re_search False phone_pattern txt \<and> \<not> re_search False email_pattern txt
      \<and> \<not> re_search True social_pattern txt"
  proof (cases "?parts = []")
    case True
    with res empty found show ?thesis by simp
  next
    case False
    from contact_not_sentinel [OF False heads] res False empty found show ?thesis by auto
  qed
next
  let ?t = "subject @ '' '' @ body"
  let ?rs = "concat (map (\<lambda>p. pattern_requirements p ?t) requirement_patterns)"
  have res: "extract_requirements subject body = (if ?rs \<noteq> [] then join ''; '' ?rs else general_inquiry)"
    by (simp add: extract_requirements_def Let_def)
  have heads: "\<forall>r \<in> set ?rs. r \<noteq> [] \<and> lower_char (hd r) \<in> set trigger_initials"
    using requirement_head by auto
  have empty: "?rs = [] \<longleftrightarrow> (\<forall>p \<in> set requirement_patterns. pattern_requirements p ?t = [])"
    by auto
  show "extract_requirements subject body = general_inquiry \<longleftrightarrow>
        (\<forall>p \<in> set requirement_patterns. pattern_requirements p ?t = [])"
  proof (cases "?rs = []")
    case True
    with res empty show ?thesis by simp
  next
    case False
    from requirements_not_sentinel [OF False heads] res False empty show ?thesis by auto
  qed
  show "extract_requirements subject body \<noteq> general_inquiry \<longrightarrow>
        extract_requirements subject body = join ''; '' ?rs"
    using res by auto
next
  fix p
  have "length (pattern_requirements p txt) \<le> length (take 3 (findall2 True p txt))"
    unfolding pattern_requirements_def by (rule order_trans [OF length_filter_le]) simp
  then show "length (pattern_requirements p txt) \<le> 3" by simp
next
  fix p
  show "\<forall>r \<in> set (pattern_requirements p txt).
          10 < length r \<and> (\<exists>(a, b) \<in> set (take 3 (findall2 True p txt)). r = strip (a @ '' '' @ b))"
    by (auto simp: pattern_requirements_def)
qed

section \<open>Claims\<close>

text \<open>
  C1. For every subject and body, \<open>determine_priority\<close> lowercases
  \<open>subject + " " + body\<close>, counts the urgent keywords present in it as substrings
  (\<open>keyword_hits\<close>) and the time-urgency patterns found between word boundaries
  (\<open>pattern_hits\<close>), and returns \<open>urgent\<close> if and only if the two counts add up to 2 or
  more, else \<open>normal\<close>. The result is a function of the two strings alone: the
  keyword list is assigned once in the constructor and never changed.
\<close>

theorem determine_priority_threshold:
  "determine_priority subject body =
     (if 2 \<le> keyword_hits (lower (subject @ '' '' @ body)) + pattern_hits (lower (subject @ '' '' @ body))
      then ''urgent'' else ''normal'')
   \<and> (determine_priority subject body = ''urgent'' \<longleftrightarrow>
        2 \<le> keyword_hits (lower (subject @ '' '' @ body)) + pattern_hits (lower (subject @ '' '' @ body)))"
  by (simp add: determine_priority_def urgent_score_eq time_urgency_eq)

text \<open>The theorem at 0, 1 and 2 combined hits.\<close>

theorem determine_priority_threshold_witness:
  "determine_priority ''Hello'' ''see you'' = ''normal''
   \<and> keyword_hits (lower (''Hello'' @ '' '' @ ''see you'')) + pattern_hits (lower (''Hello'' @ '' '' @ ''see you'')) < 2
   \<and> determine_priority ''Server'' ''it is broken'' = ''normal''
   \<and> determine_priority ''URGENT'' ''system down'' = ''urgent''
   \<and> 2 \<le> keyword_hits (lower (''URGENT'' @ '' '' @ ''system down'')) + pattern_hits (lower (''URGENT'' @ '' '' @ ''system down''))"
proof -
  have a: "determine_priority ''Hello'' ''see you'' = ''normal''" by code_simp
  have b: "determine_priority ''Server'' ''it is broken'' = ''normal''" by code_simp
  have c: "determine_priority ''URGENT'' ''system down'' = ''urgent''" by code_simp
  from a determine_priority_threshold [of "''Hello''" "''see you''"]
  have a': "keyword_hits (lower (''Hello'' @ '' '' @ ''see you'')) + pattern_hits (lower (''Hello'' @ '' '' @ ''see you'')) < 2"
    by (simp split: if_splits)
  from c determine_priority_threshold [of "''URGENT''" "''system down''"]
  have c': "2 \<le> keyword_hits (lower (''URGENT'' @ '' '' @ ''system down'')) + pattern_hits (lower (''URGENT'' @ '' '' @ ''system down''))"
    by (simp split: if_splits)
  from a a' b c c' show ?thesis by blast
qed

text \<open>
  C2. For every text, the rule-based sentiment fallback counts the positive and the
  negative lexicon words present in the text as substrings, letter case ignored, and
  returns \<open>(positive, 0.7)\<close> when the positive count is the greater,
  \<open>(negative, 0.7)\<close> when the negative count is the greater, and \<open>(neutral, 0.6)\<close> on
  every tie, 0 to 0 included.
\<close>

theorem rule_based_sentiment_majority:
  "rule_based_sentiment text =
     (if positive_hits text > negative_hits text then (''positive'', 7 / 10)
      else if negative_hits text > positive_hits text then (''negative'', 7 / 10)
      else (''neutral'', 6 / 10))"
  by (simp add: rule_based_sentiment_def positive_count_eq negative_count_eq Let_def)

text \<open>The theorem on a positive, a negative, a tied and an empty-handed text.\<close>

theorem rule_based_sentiment_majority_witness:
  "rule_based_sentiment ''Thank you, great service, I love it'' = (''positive'', 7 / 10)
   \<and> negative_hits ''Thank you, great service, I love it'' < positive_hits ''Thank you, great service, I love it''
   \<and> rule_based_sentiment ''It is BROKEN and awful'' = (''negative'', 7 / 10)
   \<and> rule_based_sentiment ''Great, but there is an error'' = (''neutral'', 6 / 10)
   \<and> rule_based_sentiment ''Hello'' = (''neutral'', 6 / 10)"
proof -
  have a: "rule_based_sentiment ''Thank you, great service, I love it'' = (''positive'', 7 / 10)"
    by code_simp
  have b: "rule_based_sentiment ''It is BROKEN and awful'' = (''negative'', 7 / 10)" by code_simp
  have c: "rule_based_sentiment ''Great, but there is an error'' = (''neutral'', 6 / 10)" by code_simp
  have d: "rule_based_sentiment ''Hello'' = (''neutral'', 6 / 10)" by code_simp
  from a rule_based_sentiment_majority [of "''Thank you, great service, I love it''"]
  have "negative_hits ''Thank you, great service, I love it'' < positive_hits ''Thank you, great service, I love it''"
    by (simp split: if_splits)
  with a b c d show ?thesis by blast
qed

text \<open>
  C3. For every knowledge base, keyword list, subject and body: \<open>find_best_solution\<close>
  gives every row the score \<open>entry_score\<close> (twice the overlap of the extracted
  keywords with the row's keywords, plus the number of the row's keywords present in
  the text of subject and body, letter case ignored). A row replaces the running
  best only on a strictly greater score, so the result is the solution and the
  escalation note of the earliest row of the highest score, which is positive; when
  no row scores above zero the result is the generic solution and the generic
  route-to-appropriate-team note.
\<close>

theorem find_best_solution_first_highest:
  "((\<forall>row \<in> set kb. entry_score keywords subject body row = 0) \<longrightarrow>
      find_best_solution kb keywords subject body = generic_solution)
   \<and> ((\<exists>row \<in> set kb. 0 < entry_score keywords subject body row) \<longrightarrow>
      (\<exists>i. first_best (entry_score keywords subject body) kb i
           \<and> 0 < entry_score keywords subject body (kb ! i)
           \<and> find_best_solution kb keywords subject body = snd (snd (kb ! i))))"
proof -
  let ?score = "entry_score keywords subject body"
  let ?st = "foldl (consider_row keywords (subject @ '' '' @ body)) (None, 0) kb"
  have inv: "loop_inv ?score kb ?st" by (rule loop_inv_foldl)
  have res: "find_best_solution kb keywords subject body =
               (case fst ?st of Some m \<Rightarrow> m | None \<Rightarrow> generic_solution)"
    by (simp add: find_best_solution_def Let_def split: prod.splits)
  show ?thesis
  proof (cases "fst ?st")
    case None
    with inv have "\<forall>row \<in> set kb. ?score row = 0" by (simp add: loop_inv_def)
    with None res show ?thesis by auto
  next
    case (Some m)
    with inv obtain i where i: "first_best ?score kb i" "m = snd (snd (kb ! i))" "0 < ?score (kb ! i)"
      by (auto simp: loop_inv_def)
    then have "i < length kb" by (simp add: first_best_def)
    then have "kb ! i \<in> set kb" by simp
    with i(3) have "\<not> (\<forall>row \<in> set kb. ?score row = 0)" by force
    with i Some res show ?thesis by auto
  qed
qed

text \<open>The theorem on the fixed knowledge base: a text about a refund selects the
  billing row; a text that matches nothing gets the generic answer; of two rows
  with equal scores the earlier one wins.\<close>

theorem find_best_solution_first_highest_witness:
  "(\<exists>i. first_best (entry_score [] ''Billing'' ''refund my invoice'') knowledge_entries i
        \<and> 0 < entry_score [] ''Billing'' ''refund my invoice'' (knowledge_entries ! i)
        \<and> find_best_solution knowledge_entries [] ''Billing'' ''refund my invoice''
            = snd (snd (knowledge_entries ! i)))
   \<and> find_best_solution knowledge_entries [] ''Hi'' ''hello there'' = generic_solution
   \<and> find_best_solution [(''a'', ''cat'', ''first'', ''e1''), (''b'', ''cat'', ''second'', ''e2'')] [''cat''] ''my'' ''cat''
       = (''first'', ''e1'')"
proof -
  have "0 < total_score [] (''Billing'' @ '' '' @ ''refund my invoice'') (fst (snd (knowledge_entries ! 2)))"
    by code_simp
  then have "0 < entry_score [] ''Billing'' ''refund my invoice'' (knowledge_entries ! 2)"
    by (simp only: entry_score_total_score)
  moreover have "knowledge_entries ! 2 \<in> set knowledge_entries"
    by (simp add: knowledge_entries_def)
  ultimately have pos: "\<exists>row \<in> set knowledge_entries. 0 < entry_score [] ''Billing'' ''refund my invoice'' row"
    by blast
  have "list_all (\<lambda>row. total_score [] (''Hi'' @ '' '' @ ''hello there'') (fst (snd row)) = 0) knowledge_entries"
    by code_simp
  then have zero: "\<forall>row \<in> set knowledge_entries. entry_score [] ''Hi'' ''hello there'' row = 0"
    by (simp only: entry_score_total_score list_all_iff)
  have tie: "find_best_solution [(''a'', ''cat'', ''first'', ''e1''), (''b'', ''cat'', ''second'', ''e2'')] [''cat''] ''my'' ''cat''
       = (''first'', ''e1'')"
    by code_simp
  from pos zero tie
    find_best_solution_first_highest [of knowledge_entries "[]" "''Billing''" "''refund my invoice''"]
    find_best_solution_first_highest [of knowledge_entries "[]" "''Hi''" "''hello there''"]
  show ?thesis by blast
qed

text \<open>
  C4. The claim: \<open>extract_keywords\<close> de-duplicates the collected keywords in first-seen
  order and truncates to the first 10. The program de-duplicates through a Python
  set, whose iteration order is not the order of insertion: with the set iterated
  in another order the result differs from the first-seen list.
\<close>

theorem extract_keywords_first_seen_counterexample:
  "distinct (last_seen_first (collect_keywords ''login api''))
   \<and> set (last_seen_first (collect_keywords ''login api'')) = set (collect_keywords ''login api'')
   \<and> extract_keywords last_seen_first ''login api'' = [''login'', ''api'']
   \<and> take 10 (dedupe_first_seen (collect_keywords ''login api'')) = [''api'', ''login'']
   \<and> extract_keywords last_seen_first ''login api'' \<noteq> take 10 (dedupe_first_seen (collect_keywords ''login api''))"
proof -
  have c: "collect_keywords ''login api'' = [''api'', ''login'']" by code_simp
  have a: "last_seen_first [''api'', ''login''] = [''login'', ''api'']" by code_simp
  have b: "dedupe_first_seen [''api'', ''login''] = [''api'', ''login'']" by code_simp
  have s: "set [''login'', ''api''] = set [''api'', ''login'']" by code_simp
  have ne: "[''login'', ''api''] \<noteq> [''api'', ''login'']" by simp
  from s ne show ?thesis unfolding extract_keywords_def c a b by simp
qed

text \<open>
  C4, as the program has it. For every text, \<open>extract_keywords\<close> collects the matches
  of the patterns and the urgent keywords present in the lowercase text, turns them
  into a set and keeps the first 10 of the set's iteration. Whatever the iteration
  order of the set (it lists every member once), the result is the first 10 entries
  of that iteration: its length is the smaller of 10 and the number of distinct
  collected keywords, it has no duplicates, each entry is a collected keyword (a
  technical term of the patterns up to letter case, or an urgent keyword present in
  the lowercase text), and it holds all collected keywords when at most 10 are
  distinct.
\<close>

theorem extract_keywords_unique_bounded:
  assumes dist: "distinct (list_of_set (collect_keywords txt))"
    and same: "set (list_of_set (collect_keywords txt)) = set (collect_keywords txt)"
  shows "extract_keywords list_of_set txt = take 10 (list_of_set (collect_keywords txt))
       \<and> length (extract_keywords list_of_set txt) = min 10 (card (set (collect_keywords txt)))
       \<and> distinct (extract_keywords list_of_set txt)
       \<and> length (extract_keywords list_of_set txt) \<le> 10
       \<and> set (extract_keywords list_of_set txt) \<subseteq> set (collect_keywords txt)
       \<and> (card (set (collect_keywords txt)) \<le> 10 \<longrightarrow>
            set (extract_keywords list_of_set txt) = set (collect_keywords txt))
       \<and> (\<forall>k \<in> set (extract_keywords list_of_set txt).
            (\<exists>w \<in> set (concat tech_words). lower k = w)
            \<or> (k \<in> set urgent_keywords \<and> occurs_in k (lower txt)))"
proof -
  let ?all = "list_of_set (collect_keywords txt)"
  have ek: "extract_keywords list_of_set txt = take 10 ?all" by (simp add: extract_keywords_def)
  from dist same have len_all: "length ?all = card (set (collect_keywords txt))"
    using distinct_card [of ?all] by simp
  have len: "length (take 10 ?all) = min 10 (card (set (collect_keywords txt)))"
    by (simp add: len_all min.commute)
  have d: "distinct (take 10 ?all)" using dist by simp
  have l: "length (take 10 ?all) \<le> 10" by simp
  have sub: "set (take 10 ?all) \<subseteq> set (collect_keywords txt)"
    using same set_take_subset [of 10 ?all] by simp
  have full: "set (take 10 ?all) = set (collect_keywords txt)" if "card (set (collect_keywords txt)) \<le> 10"
  proof -
    from that len_all have "take 10 ?all = ?all" by simp
    with same show ?thesis by simp
  qed
  have orig: "\<forall>k \<in> set (take 10 ?all).
            (\<exists>w \<in> set (concat tech_words). lower k = w)
            \<or> (k \<in> set urgent_keywords \<and> occurs_in k (lower txt))"
    using sub collect_keywords_member by blast
  from len d l sub full orig show ?thesis unfolding ek by blast
qed

text \<open>The theorem on a text with five distinct keywords and on a text with twelve, of
  which ten are kept; the set is iterated in the reverse of the first-seen order.\<close>

theorem extract_keywords_unique_bounded_witness:
  "collect_keywords ''Login failed, api error. API down'' = [''api'', ''API'', ''Login'', ''error'', ''failed'']
   \<and> extract_keywords last_seen_first ''Login failed, api error. API down''
       = [''failed'', ''error'', ''Login'', ''API'', ''api'']
   \<and> length (extract_keywords last_seen_first ''Login failed, api error. API down'') = 5
   \<and> distinct (extract_keywords last_seen_first ''Login failed, api error. API down'')
   \<and> set (extract_keywords last_seen_first ''Login failed, api error. API down'')
       = set (collect_keywords ''Login failed, api error. API down'')
   \<and> card (set (collect_keywords ''api sdk webhook server bug crash timeout login access billing refund is urgent'')) = 12
   \<and> length (extract_keywords last_seen_first ''api sdk webhook server bug crash timeout login access billing refund is urgent'') = 10
   \<and> extract_keywords last_seen_first ''api sdk webhook server bug crash timeout login access billing refund is urgent''
       = [''urgent'', ''refund'', ''billing'', ''access'', ''login'', ''timeout'', ''crash'', ''bug'', ''server'', ''webhook'']"
proof -
  let ?t = "''Login failed, api error. API down''"
  let ?u = "''api sdk webhook server bug crash timeout login access billing refund is urgent''"
  have c: "collect_keywords ?t = [''api'', ''API'', ''Login'', ''error'', ''failed'']"
    by code_simp
  have d: "distinct (last_seen_first (collect_keywords ?t))"
    unfolding c by code_simp
  have s: "set (last_seen_first (collect_keywords ?t)) = set (collect_keywords ?t)"
    unfolding c by code_simp
  have n: "card (set (collect_keywords ?t)) = 5"
    unfolding c by code_simp
  have o: "take 10 (last_seen_first (collect_keywords ?t)) = [''failed'', ''error'', ''Login'', ''API'', ''api'']"
    unfolding c by code_simp
  have c2: "collect_keywords ?u = [''api'', ''sdk'', ''webhook'', ''server'', ''bug'', ''crash'', ''timeout'',
       ''login'', ''access'', ''billing'', ''refund'', ''urgent'']"
    by code_simp
  have d2: "distinct (last_seen_first (collect_keywords ?u))"
    unfolding c2 by code_simp
  have s2: "set (last_seen_first (collect_keywords ?u)) = set (collect_keywords ?u)"
    unfolding c2 by code_simp
  have n2: "card (set (collect_keywords ?u)) = 12"
    unfolding c2 by code_simp
  have o2: "take 10 (last_seen_first (collect_keywords ?u))
       = [''urgent'', ''refund'', ''billing'', ''access'', ''login'', ''timeout'', ''crash'', ''bug'', ''server'', ''webhook'']"
    unfolding c2 by code_simp
  note first = extract_keywords_unique_bounded [of last_seen_first ?t, OF d s]
  note second = extract_keywords_unique_bounded [of last_seen_first ?u, OF d2 s2]
  from first have e1: "extract_keywords last_seen_first ?t = take 10 (last_seen_first (collect_keywords ?t))"
    by (rule conjunct1)
  from first have l1: "length (extract_keywords last_seen_first ?t) = min 10 (card (set (collect_keywords ?t)))"
    by blast
  from first have d1: "distinct (extract_keywords last_seen_first ?t)" by blast
  have "card (set (collect_keywords ?t)) \<le> 10" by (simp add: n)
  with first have f1: "set (extract_keywords last_seen_first ?t) = set (collect_keywords ?t)"
    by blast
  from second have e2: "extract_keywords last_seen_first ?u = take 10 (last_seen_first (collect_keywords ?u))"
    by (rule conjunct1)
  from second have l2: "length (extract_keywords last_seen_first ?u) = min 10 (card (set (collect_keywords ?u)))"
    by blast
  have r1: "extract_keywords last_seen_first ?t = [''failed'', ''error'', ''Login'', ''API'', ''api'']"
    by (simp only: e1 o)
  have r2: "length (extract_keywords last_seen_first ?t) = 5"
    by (simp add: l1 n)
  have r3: "length (extract_keywords last_seen_first ?u) = 10"
    by (simp add: l2 n2)
  have r4: "extract_keywords last_seen_first ?u
       = [''urgent'', ''refund'', ''billing'', ''access'', ''login'', ''timeout'', ''crash'', ''bug'', ''server'', ''webhook'']"
    by (simp only: e2 o2)
  from c r1 r2 d1 f1 n2 r3 r4 show ?thesis by blast
qed

text \<open>
  C5. The claim: for every analysis record, malformed ones included, response
  synthesis returns a string and never raises. The program does not keep it: for a
  record without the field \<open>sender\<close>, or with the sender \<open>None\<close>, the first
  statement of the \<open>try\<close> block raises, the handler reads the unassigned variable
  \<open>sender_name\<close>, and UnboundLocalError leaves \<open>generate_ai_response\<close>.
\<close>

theorem generate_ai_response_unbound_sender_name:
  "generate_ai_response kb_entries now Map.empty = Inl UnboundLocalError
   \<and> generate_ai_response kb_entries now (d(''sender'' \<mapsto> PNone)) = Inl UnboundLocalError"
  by (simp add: generate_ai_response_def sender_name_of_def getitem_def and_then_def)

text \<open>
  C6. For every priority and sentiment the key \<open>priority_sentiment\<close> resolves to a
  template of the dictionary: the keys \<open>urgent_negative\<close>, \<open>normal_positive\<close>,
  \<open>normal_neutral\<close> and \<open>urgent_neutral\<close> select their own templates, every other
  combination the template \<open>normal_neutral\<close>.
\<close>

theorem template_key_resolves:
  "select_template priority sentiment =
     Inr (if py_str priority = ''urgent'' \<and> py_str sentiment = ''negative'' then template_urgent_negative
          else if py_str priority = ''normal'' \<and> py_str sentiment = ''positive'' then template_normal_positive
          else if py_str priority = ''normal'' \<and> py_str sentiment = ''neutral'' then template_normal_neutral
          else if py_str priority = ''urgent'' \<and> py_str sentiment = ''neutral'' then template_urgent_neutral
          else template_normal_neutral)"
proof -
  have keys: "fst ` set response_templates
                = {''urgent_negative'', ''normal_positive'', ''normal_neutral'', ''urgent_neutral''}"
    by (simp add: response_templates_def)
  show ?thesis
    unfolding select_template_def Let_def keys
    by (simp add: key_eq response_templates_def del: append.simps)
qed

text \<open>The theorem on the six combinations of the two enumerations, and on a priority
  that is not a string.\<close>

theorem template_key_resolves_witness:
  "select_template (PStr ''urgent'') (PStr ''negative'') = Inr template_urgent_negative
   \<and> select_template (PStr ''normal'') (PStr ''positive'') = Inr template_normal_positive
   \<and> select_template (PStr ''normal'') (PStr ''neutral'') = Inr template_normal_neutral
   \<and> select_template (PStr ''urgent'') (PStr ''neutral'') = Inr template_urgent_neutral
   \<and> select_template (PStr ''urgent'') (PStr ''positive'') = Inr template_normal_neutral
   \<and> select_template (PStr ''normal'') (PStr ''negative'') = Inr template_normal_neutral
   \<and> select_template PNone (PStr ''neutral'') = Inr template_normal_neutral"
  using template_key_resolves [of "PStr ''urgent''" "PStr ''negative''"]
    template_key_resolves [of "PStr ''normal''" "PStr ''positive''"]
    template_key_resolves [of "PStr ''normal''" "PStr ''neutral''"]
    template_key_resolves [of "PStr ''urgent''" "PStr ''neutral''"]
    template_key_resolves [of "PStr ''urgent''" "PStr ''positive''"]
    template_key_resolves [of "PStr ''normal''" "PStr ''negative''"]
    template_key_resolves [of PNone "PStr ''neutral''"]
  by simp

text \<open>
  C7. Regenerating twice for the same stored email gives the same answer apart from
  the ticket id: the first call changes only the column \<open>ai_response\<close>, which the
  second call does not read, and the response text depends on the time of the call
  through the ticket id alone.
\<close>

theorem regenerate_twice_same_apart_from_ticket:
  assumes first: "regenerate_response db now1 email_id = (db1, r1)"
    and second: "regenerate_response db1 now2 email_id = (db2, r2)"
  shows "same_apart_from_ticket (''SUP'' @ now1) (''SUP'' @ now2) r1 r2"
proof (cases "emails db email_id")
  case None
  with first have "db1 = db" "r1 = NotFound" by (simp_all add: regenerate_response_cases)
  with second None have "r2 = NotFound" by (simp add: regenerate_response_cases)
  with \<open>r1 = NotFound\<close> show ?thesis by (simp add: same_apart_from_ticket_def)
next
  case (Some row)
  let ?kb = "knowledge_base db"
  let ?d = "stored_fields row"
  from generate_ai_response_shape [of ?kb ?d]
  consider e where "\<forall>now. generate_ai_response ?kb now ?d = Inl e"
    | chunks where "chunks \<noteq> []" "\<forall>now. generate_ai_response ?kb now ?d = Inr (join (''SUP'' @ now) chunks)"
    by blast
  then show ?thesis
  proof cases
    case 1
    with first Some have a: "db1 = db" "r1 = ServerError e" by (simp_all add: regenerate_response_cases)
    with second Some 1 have "r2 = ServerError e" by (simp add: regenerate_response_cases)
    with a show ?thesis by (simp add: same_apart_from_ticket_def)
  next
    case 2
    let ?row1 = "row\<lparr>col_ai_response := PStr (join (''SUP'' @ now1) chunks)\<rparr>"
    from first Some 2 have a: "db1 = db\<lparr>emails := (emails db)(email_id \<mapsto> ?row1)\<rparr>"
      "r1 = Regenerated (join (''SUP'' @ now1) chunks)"
      by (simp_all add: regenerate_response_cases)
    have same_fields: "stored_fields ?row1 = ?d" by (simp add: stored_fields_def)
    from a have "emails db1 email_id = Some ?row1" "knowledge_base db1 = ?kb" by simp_all
    with second 2 same_fields have "r2 = Regenerated (join (''SUP'' @ now2) chunks)"
      by (simp add: regenerate_response_cases)
    with a(2) 2(1) show ?thesis unfolding same_apart_from_ticket_def by blast
  qed
qed

text \<open>The theorem on the example database, at two times seven seconds apart; each
  response carries the ticket id of its own call.\<close>

theorem regenerate_twice_same_apart_from_ticket_witness:
  "same_apart_from_ticket (''SUP'' @ ''20250101120000'') (''SUP'' @ ''20250101120007'')
     (snd (regenerate_response example_database ''20250101120000'' 1))
     (snd (regenerate_response (fst (regenerate_response example_database ''20250101120000'' 1)) ''20250101120007'' 1))
   \<and> (case snd (regenerate_response example_database ''20250101120000'' 1) of
        Regenerated x \<Rightarrow> contains ''Priority ticket: #SUP20250101120000'' x | _ \<Rightarrow> False)
   \<and> (case snd (regenerate_response (fst (regenerate_response example_database ''20250101120000'' 1)) ''20250101120007'' 1) of
        Regenerated x \<Rightarrow> contains ''Priority ticket: #SUP20250101120007'' x | _ \<Rightarrow> False)"
proof -
  have a: "case snd (regenerate_response example_database ''20250101120000'' 1) of
        Regenerated x \<Rightarrow> contains ''Priority ticket: #SUP20250101120000'' x | _ \<Rightarrow> False"
    by code_simp
  have b: "case snd (regenerate_response (fst (regenerate_response example_database ''20250101120000'' 1)) ''20250101120007'' 1) of
        Regenerated x \<Rightarrow> contains ''Priority ticket: #SUP20250101120007'' x | _ \<Rightarrow> False"
    by code_simp
  have c: "same_apart_from_ticket (''SUP'' @ ''20250101120000'') (''SUP'' @ ''20250101120007'')
     (snd (regenerate_response example_database ''20250101120000'' 1))
     (snd (regenerate_response (fst (regenerate_response example_database ''20250101120000'' 1)) ''20250101120007'' 1))"
    by (rule regenerate_twice_same_apart_from_ticket [of example_database "''20250101120000''" 1 _ _ "''20250101120007''"])
       (rule prod.collapse [symmetric])+
  from a b c show ?thesis by blast
qed

text \<open>
  C8. Extraction signals "nothing found" by a sentinel. \<open>extract_contact_info\<close> returns
  \<open>No additional contact info found\<close> exactly when none of the phone, email-address
  and social-handle patterns matches the text. \<open>extract_requirements\<close> keeps, for
  each pattern, those of its first three matches whose two groups, joined by a blank
  and stripped, are longer than 10 characters, joins what it kept with \<open>"; "\<close>, and
  returns \<open>General support inquiry\<close> exactly when it kept nothing.
\<close>

theorem extraction_sentinels:
  "(extract_contact_info txt = no_contact_info \<longleftrightarrow>
      \<not> re_search False phone_pattern txt \<and> \<not> re_search False email_pattern txt
      \<and> \<not> re_search True social_pattern txt)
   \<and> extract_requirements subject body =
        (if concat (map (\<lambda>p. qualifying p (subject @ '' '' @ body)) requirement_patterns) = []
         then general_inquiry
         else join ''; '' (concat (map (\<lambda>p. qualifying p (subject @ '' '' @ body)) requirement_patterns)))
   \<and> (extract_requirements subject body = general_inquiry \<longleftrightarrow>
        (\<forall>p \<in> set requirement_patterns.
           \<forall>(a, b) \<in> set (take 3 (findall2 True p (subject @ '' '' @ body))).
             length (strip (a @ '' '' @ b)) \<le> 10))
   \<and> (\<forall>p. pattern_requirements p txt = qualifying p txt)
   \<and> (\<forall>p. \<forall>(a, b) \<in> set (take 3 (findall2 True p txt)).
          10 < length (strip (a @ '' '' @ b)) \<longrightarrow> strip (a @ '' '' @ b) \<in> set (pattern_requirements p txt))
   \<and> (extract_requirements subject body = general_inquiry \<longleftrightarrow>
        (\<forall>p \<in> set requirement_patterns. pattern_requirements p (subject @ '' '' @ body) = []))
   \<and> (extract_requirements subject body \<noteq> general_inquiry \<longrightarrow>
        extract_requirements subject body =
          join ''; '' (concat (map (\<lambda>p. pattern_requirements p (subject @ '' '' @ body)) requirement_patterns)))
   \<and> (\<forall>p. length (pattern_requirements p txt) \<le> 3
          \<and> (\<forall>r \<in> set (pattern_requirements p txt).
                10 < length r \<and> (\<exists>(a, b) \<in> set (take 3 (findall2 True p txt)). r = strip (a @ '' '' @ b))))"
proof -
  let ?t = "subject @ '' '' @ body"
  let ?kept = "concat (map (\<lambda>p. qualifying p ?t) requirement_patterns)"
  note core = sentinels_core [of "txt" subject body]
  have same: "pattern_requirements p s = qualifying p s" for p s
    by (simp add: pattern_requirements_def qualifying_def)
  have kept_eq: "concat (map (\<lambda>p. pattern_requirements p ?t) requirement_patterns) = ?kept"
    by (simp add: same)
  have empty: "?kept = [] \<longleftrightarrow> (\<forall>p \<in> set requirement_patterns. pattern_requirements p ?t = [])"
    by (auto simp: same)
  from core have sentinel: "extract_requirements subject body = general_inquiry \<longleftrightarrow>
        (\<forall>p \<in> set requirement_patterns. pattern_requirements p ?t = [])"
    by blast
  from core have joined: "extract_requirements subject body \<noteq> general_inquiry \<longrightarrow>
        extract_requirements subject body =
          join ''; '' (concat (map (\<lambda>p. pattern_requirements p ?t) requirement_patterns))"
    by blast
  have whole: "extract_requirements subject body = (if ?kept = [] then general_inquiry else join ''; '' ?kept)"
    using sentinel joined empty kept_eq by auto
  have none: "qualifying p ?t = [] \<longleftrightarrow>
        (\<forall>(a, b) \<in> set (take 3 (findall2 True p ?t)). length (strip (a @ '' '' @ b)) \<le> 10)" for p
    by (auto simp: qualifying_def filter_empty_conv not_less)
  have exact: "extract_requirements subject body = general_inquiry \<longleftrightarrow>
        (\<forall>p \<in> set requirement_patterns.
           \<forall>(a, b) \<in> set (take 3 (findall2 True p ?t)). length (strip (a @ '' '' @ b)) \<le> 10)"
    unfolding sentinel same none ..
  have conv: "\<forall>p. \<forall>(a, b) \<in> set (take 3 (findall2 True p txt)).
          10 < length (strip (a @ '' '' @ b)) \<longrightarrow> strip (a @ '' '' @ b) \<in> set (pattern_requirements p txt)"
    by (auto simp: pattern_requirements_def)
  from core whole exact same conv show ?thesis by blast
qed

text \<open>The theorem on a text without contact data and on a request too short to
  qualify, beside a text with a phone number and a request that qualifies twice. A
  requirement of exactly 10 characters is dropped, one of 12 is kept, and of four
  matches of one pattern the first three are kept.\<close>

theorem extraction_sentinels_witness:
  "extract_contact_info ''nothing here'' = no_contact_info
   \<and> extract_contact_info ''call +1 555-123-4567'' = ''Phone: +1 555-123-4567''
   \<and> extract_requirements ''Hi'' ''I need it.'' = general_inquiry
   \<and> extract_requirements ''Hi'' ''we need helps.'' = general_inquiry
   \<and> extract_requirements ''Hi'' ''we need helpers.'' = ''need helpers''
   \<and> extract_requirements ''Re'' ''need aaaaaaa. need bbbbbbb. need ccccccc. need ddddddd.''
       = ''need aaaaaaa; need bbbbbbb; need ccccccc''
   \<and> extract_requirements ''Help'' ''I need a refund for my order. Thanks''
       = ''need a refund for my order; I need a refund for my order''"
proof -
  have "\<not> re_search False phone_pattern ''nothing here''" by code_simp
  moreover have "\<not> re_search False email_pattern ''nothing here''" by code_simp
  moreover have "\<not> re_search True social_pattern ''nothing here''" by code_simp
  ultimately have a: "extract_contact_info ''nothing here'' = no_contact_info"
    using extraction_sentinels [of "''nothing here''" "''Hi''" "''I need it.''"] by blast
  have "list_all (\<lambda>p. list_all (\<lambda>(a, b). length (strip (a @ '' '' @ b)) \<le> 10)
           (take 3 (findall2 True p (''Hi'' @ '' '' @ ''I need it.'')))) requirement_patterns"
    by code_simp
  then have "\<forall>p \<in> set requirement_patterns.
           \<forall>(a, b) \<in> set (take 3 (findall2 True p (''Hi'' @ '' '' @ ''I need it.''))).
             length (strip (a @ '' '' @ b)) \<le> 10"
    by (simp only: list_all_iff)
  then have b: "extract_requirements ''Hi'' ''I need it.'' = general_inquiry"
    using extraction_sentinels [of "''nothing here''" "''Hi''" "''I need it.''"] by blast
  have "list_all (\<lambda>p. list_all (\<lambda>(a, b). length (strip (a @ '' '' @ b)) \<le> 10)
           (take 3 (findall2 True p (''Hi'' @ '' '' @ ''we need helps.'')))) requirement_patterns"
    by code_simp
  then have "\<forall>p \<in> set requirement_patterns.
           \<forall>(a, b) \<in> set (take 3 (findall2 True p (''Hi'' @ '' '' @ ''we need helps.''))).
             length (strip (a @ '' '' @ b)) \<le> 10"
    by (simp only: list_all_iff)
  then have c: "extract_requirements ''Hi'' ''we need helps.'' = general_inquiry"
    using extraction_sentinels [of "''nothing here''" "''Hi''" "''we need helps.''"] by blast
  have k: "concat (map (\<lambda>p. qualifying p (''Hi'' @ '' '' @ ''we need helpers.'')) requirement_patterns)
             = [''need helpers'']"
    by code_simp
  have "extract_requirements ''Hi'' ''we need helpers.'' =
        (if concat (map (\<lambda>p. qualifying p (''Hi'' @ '' '' @ ''we need helpers.'')) requirement_patterns) = []
         then general_inquiry
         else join ''; '' (concat (map (\<lambda>p. qualifying p (''Hi'' @ '' '' @ ''we need helpers.'')) requirement_patterns)))"
    using extraction_sentinels [of "''nothing here''" "''Hi''" "''we need helpers.''"] by (rule conjunct1 [OF conjunct2])
  then have d: "extract_requirements ''Hi'' ''we need helpers.'' = ''need helpers''"
    unfolding k by simp
  have e: "extract_contact_info ''call +1 555-123-4567'' = ''Phone: +1 555-123-4567''"
    by code_simp
  have f: "extract_requirements ''Re'' ''need aaaaaaa. need bbbbbbb. need ccccccc. need ddddddd.''
       = ''need aaaaaaa; need bbbbbbb; need ccccccc''"
    by code_simp
  have g: "extract_requirements ''Help'' ''I need a refund for my order. Thanks''
       = ''need a refund for my order; I need a refund for my order''"
    by code_simp
  from a b c d e f g show ?thesis by blast
qed

text \<open>
  C9. When the lowercase text of subject and body holds one of the words urgent,
  critical, emergency, asap, immediately, deadline as a word (between two word
  boundaries), and no other urgent keyword and no other time-urgency pattern, the
  word counts once as a keyword and once as a pattern, and \<open>determine_priority\<close>
  returns \<open>urgent\<close>.
\<close>

theorem single_urgency_word_is_urgent:
  assumes w: "w \<in> {''urgent'', ''critical'', ''emergency'', ''asap'', ''immediately'', ''deadline''}"
    and tx: "text = lower (subject @ '' '' @ body)"
    and occ: "occurs_as_word w text"
    and no_kw: "\<forall>k \<in> set urgent_keywords. k \<noteq> w \<longrightarrow> \<not> occurs_in k text"
    and no_pat: "\<forall>p \<in> set time_words. p \<noteq> w \<longrightarrow> \<not> occurs_as_word p text"
  shows "keyword_hits text = 1 \<and> pattern_hits text = 1 \<and> determine_priority subject body = ''urgent''"
proof -
  from w have wk: "w \<in> set urgent_keywords" by (auto simp: urgent_keywords_def)
  from w have wt: "w \<in> set time_words" by (auto simp: time_words_def)
  from occ have occ_in: "occurs_in w text" by (rule occurs_as_word_occurs_in)
  have k: "keyword_hits text = 1"
    unfolding keyword_hits_def using wk occ_in no_kw by (rule card_single_hit)
  have p: "pattern_hits text = 1"
    unfolding pattern_hits_def using wt occ no_pat by (rule card_single_hit)
  have "determine_priority subject body = ''urgent''"
    using k p tx by (simp add: determine_priority_def urgent_score_eq time_urgency_eq)
  with k p show ?thesis by simp
qed

text \<open>The theorem on the body \<open>Deadline!\<close> with an empty subject. Inside a longer
  word the same letters are a keyword hit but no pattern hit: \<open>deadlines\<close> alone
  leaves the priority \<open>normal\<close>.\<close>

theorem single_urgency_word_is_urgent_witness:
  "keyword_hits (lower ('''' @ '' '' @ ''Deadline!'')) = 1
   \<and> pattern_hits (lower ('''' @ '' '' @ ''Deadline!'')) = 1
   \<and> determine_priority '''' ''Deadline!'' = ''urgent''
   \<and> determine_priority '''' ''Deadlines'' = ''normal''"
proof (intro conjI)
  have on_its_own: "keyword_hits (lower ('''' @ '' '' @ ''Deadline!'')) = 1
   \<and> pattern_hits (lower ('''' @ '' '' @ ''Deadline!'')) = 1
   \<and> determine_priority '''' ''Deadline!'' = ''urgent''"
  proof (rule single_urgency_word_is_urgent [where w = "''deadline''"])
    show "''deadline'' \<in> {''urgent'', ''critical'', ''emergency'', ''asap'', ''immediately'', ''deadline''}"
      by simp
    show "lower ('''' @ '' '' @ ''Deadline!'') = lower ('''' @ '' '' @ ''Deadline!'')" by (rule refl)
    have "re_search False (word_pattern ''deadline'') (lower ('''' @ '' '' @ ''Deadline!''))"
      by code_simp
    then show "occurs_as_word ''deadline'' (lower ('''' @ '' '' @ ''Deadline!''))"
      by (simp only: re_search_word_pattern)
    have "list_all (\<lambda>k. k \<noteq> ''deadline'' \<longrightarrow> \<not> contains k (lower ('''' @ '' '' @ ''Deadline!''))) urgent_keywords"
      by code_simp
    then show "\<forall>k\<in>set urgent_keywords. k \<noteq> ''deadline'' \<longrightarrow> \<not> occurs_in k (lower ('''' @ '' '' @ ''Deadline!''))"
      by (simp only: ball_list_conv contains_iff)
    have "list_all (\<lambda>p. p \<noteq> ''deadline'' \<longrightarrow> \<not> re_search False (word_pattern p) (lower ('''' @ '' '' @ ''Deadline!''))) time_words"
      by code_simp
    then show "\<forall>p\<in>set time_words. p \<noteq> ''deadline'' \<longrightarrow> \<not> occurs_as_word p (lower ('''' @ '' '' @ ''Deadline!''))"
      by (simp only: ball_list_conv re_search_word_pattern)
  qed
  from on_its_own show "keyword_hits (lower ('''' @ '' '' @ ''Deadline!'')) = 1" by blast
  from on_its_own show "pattern_hits (lower ('''' @ '' '' @ ''Deadline!'')) = 1" by blast
  from on_its_own show "determine_priority '''' ''Deadline!'' = ''urgent''" by blast
  show "determine_priority '''' ''Deadlines'' = ''normal''" by code_simp
qed

text \<open>
  C10. In the score of a knowledge-base row the overlap term compares keywords
  exactly, the text-hit term ignores letter case. For a row whose keywords are
  lowercase (as all rows of the fixed knowledge base are), an extracted keyword that
  equals a keyword of the row up to letter case counts in the overlap only if it is
  in the exact lowercase form, and it counts as one text hit either way, since it
  was taken from the text. When it is the only keyword of the row present in the
  text, \<open>total_score\<close> gives the row 3 for the exact lowercase form and 1 otherwise
  (the same as \<open>entry_score\<close>), and \<open>find_best_solution\<close> on that row alone adopts it.
\<close>

theorem overlap_exact_text_hit_caseless:
  assumes kws: "kws = kb_keywords_list (fst (snd row))"
    and lowercase: "\<forall>k \<in> set kws. lower k = k"
    and dist: "distinct kws"
    and same: "lower extracted \<in> set kws"
    and present: "occurs_in extracted (subject @ '' '' @ body)"
    and alone: "\<forall>k \<in> set kws. k \<noteq> lower extracted \<longrightarrow> \<not> ci_occurs_in k (subject @ '' '' @ body)"
  shows "total_score [extracted] (subject @ '' '' @ body) (fst (snd row))
           = (if extracted = lower extracted then 3 else 1)
       \<and> sum_ones (\<lambda>kw. contains (lower kw) (lower (subject @ '' '' @ body))) kws = 1
       \<and> find_best_solution [row] [extracted] subject body = snd (snd row)
       \<and> card (set [extracted] \<inter> set kws) = (if extracted = lower extracted then 1 else 0)
       \<and> length (filter (\<lambda>kw. ci_occurs_in kw (subject @ '' '' @ body)) kws) = 1
       \<and> entry_score [extracted] subject body row = (if extracted = lower extracted then 3 else 1)"
proof -
  have mem: "extracted \<in> set kws \<longleftrightarrow> extracted = lower extracted"
    using lowercase same by force
  then have overlap: "card (set [extracted] \<inter> set kws) = (if extracted = lower extracted then 1 else 0)"
    by simp
  from present have hit: "ci_occurs_in (lower extracted) (subject @ '' '' @ body)"
    by (rule occurs_in_ci)
  from dist same hit alone
  have hits: "length (filter (\<lambda>kw. ci_occurs_in kw (subject @ '' '' @ body)) kws) = 1"
    by (rule filter_single)
  have spec: "entry_score [extracted] subject body row = (if extracted = lower extracted then 3 else 1)"
    unfolding entry_score_def kws [symmetric] hits overlap by simp
  then have code: "total_score [extracted] (subject @ '' '' @ body) (fst (snd row))
           = (if extracted = lower extracted then 3 else 1)"
    by (simp only: entry_score_total_score)
  have text_similarity:
    "sum_ones (\<lambda>kw. contains (lower kw) (lower (subject @ '' '' @ body))) kws = 1"
    using hits by (simp only: sum_ones_length ci_occurs_in_lower)
  obtain category kb_keywords solution escalation where
    row: "row = (category, kb_keywords, solution, escalation)" by (cases row) auto
  from code have "0 < total_score [extracted] (subject @ '' '' @ body) kb_keywords"
    by (simp add: row split: if_splits)
  then have adopted: "find_best_solution [row] [extracted] subject body = snd (snd row)"
    by (simp add: find_best_solution_def row)
  from code text_similarity adopted overlap hits spec show ?thesis by blast
qed

text \<open>The theorem on the row \<open>integration_api\<close>: the text \<open>API\<close> yields the extracted
  keyword \<open>API\<close> and the score 1, the text \<open>api\<close> the keyword \<open>api\<close> and the score 3.\<close>

theorem overlap_exact_text_hit_caseless_witness:
  "total_score [''API''] (''Question'' @ '' '' @ ''API'') (fst (snd (knowledge_entries ! 4))) = 1
   \<and> total_score [''api''] (''Question'' @ '' '' @ ''api'') (fst (snd (knowledge_entries ! 4))) = 3
   \<and> find_best_solution [knowledge_entries ! 4] [''API''] ''Question'' ''API''
       = snd (snd (knowledge_entries ! 4))
   \<and> entry_score [''API''] ''Question'' ''API'' (knowledge_entries ! 4) = 1
   \<and> entry_score [''api''] ''Question'' ''api'' (knowledge_entries ! 4) = 3
   \<and> collect_keywords (''Question'' @ '' '' @ ''API'') = [''API'']
   \<and> collect_keywords (''Question'' @ '' '' @ ''api'') = [''api'']"
proof -
  define kws where "kws = kb_keywords_list (fst (snd (knowledge_entries ! 4)))"
  have kws_eq: "kws = [''api'', ''integration'', ''webhook'', ''developer'', ''code'', ''sdk'',
                       ''documentation'', ''endpoint'']"
    unfolding kws_def by code_simp
  have low: "\<forall>k \<in> set kws. lower k = k"
  proof -
    have "list_all (\<lambda>k. lower k = k) [''api'', ''integration'', ''webhook'', ''developer'', ''code'', ''sdk'',
                       ''documentation'', ''endpoint'']" by code_simp
    then show ?thesis by (simp only: kws_eq list_all_iff)
  qed
  have dist: "distinct kws" unfolding kws_eq by simp
  have up: "lower ''API'' = ''api''" by code_simp
  have lo: "lower ''api'' = ''api''" by code_simp
  have same_up: "lower ''API'' \<in> set kws" unfolding up kws_eq by simp
  have same_lo: "lower ''api'' \<in> set kws" unfolding lo kws_eq by simp
  have "contains ''API'' (''Question'' @ '' '' @ ''API'')" by code_simp
  then have pres_up: "occurs_in ''API'' (''Question'' @ '' '' @ ''API'')" by (simp only: contains_iff)
  have "contains ''api'' (''Question'' @ '' '' @ ''api'')" by code_simp
  then have pres_lo: "occurs_in ''api'' (''Question'' @ '' '' @ ''api'')" by (simp only: contains_iff)
  have "list_all (\<lambda>k. k \<noteq> ''api'' \<longrightarrow> \<not> contains (lower k) (lower (''Question'' @ '' '' @ ''API'')))
          [''api'', ''integration'', ''webhook'', ''developer'', ''code'', ''sdk'', ''documentation'', ''endpoint'']"
    by code_simp
  then have alone_up: "\<forall>k \<in> set kws. k \<noteq> lower ''API'' \<longrightarrow> \<not> ci_occurs_in k (''Question'' @ '' '' @ ''API'')"
    by (simp only: kws_eq list_all_iff ci_occurs_in_lower up)
  have "list_all (\<lambda>k. k \<noteq> ''api'' \<longrightarrow> \<not> contains (lower k) (lower (''Question'' @ '' '' @ ''api'')))
          [''api'', ''integration'', ''webhook'', ''developer'', ''code'', ''sdk'', ''documentation'', ''endpoint'']"
    by code_simp
  then have alone_lo: "\<forall>k \<in> set kws. k \<noteq> lower ''api'' \<longrightarrow> \<not> ci_occurs_in k (''Question'' @ '' '' @ ''api'')"
    by (simp only: kws_eq list_all_iff ci_occurs_in_lower lo)
  have ne: "''API'' \<noteq> ''api''" by simp
  note upper = overlap_exact_text_hit_caseless [OF kws_def low dist same_up pres_up alone_up, unfolded up]
  note lowercase = overlap_exact_text_hit_caseless [OF kws_def low dist same_lo pres_lo alone_lo, unfolded lo]
  from upper ne have t1: "total_score [''API''] (''Question'' @ '' '' @ ''API'') (fst (snd (knowledge_entries ! 4))) = 1"
    by simp
  from lowercase have t3: "total_score [''api''] (''Question'' @ '' '' @ ''api'') (fst (snd (knowledge_entries ! 4))) = 3"
    by simp
  from upper have f: "find_best_solution [knowledge_entries ! 4] [''API''] ''Question'' ''API''
       = snd (snd (knowledge_entries ! 4))"
    by blast
  from upper ne have a: "entry_score [''API''] ''Question'' ''API'' (knowledge_entries ! 4) = 1"
    by simp
  from lowercase have b: "entry_score [''api''] ''Question'' ''api'' (knowledge_entries ! 4) = 3"
    by simp
  have c: "collect_keywords (''Question'' @ '' '' @ ''API'') = [''API'']" by code_simp
  have d: "collect_keywords (''Question'' @ '' '' @ ''api'') = [''api'']" by code_simp
  from t1 t3 f a b c d show ?thesis by blast
qed

end
